theory Spec2Isabelle
  imports Main
begin

section \<open>Data model of purgeMessages.tsx\<close>

text \<open>
  A message as the plugin sees it. The source reads the author through
  \<^verbatim>\<open>msg.author?.id\<close>, so a missing author is \<open>None\<close>.
\<close>

record Message =
  msg_id :: string
  author_id :: "string option"
  timestamp :: string

record ActivePurge =
  stop :: bool
  deleted :: nat
  failed :: nat

datatype purge_mode = ModeSelf | ModeUser

record PendingConfirmation =
  pcCount :: nat
  pcUserId :: "string option"
  pcMode :: purge_mode
  pcExcludeIds :: "string set option"

text \<open>
  The three module-level maps. \<open>activePurges\<close> holds references to mutable
  \<open>ActivePurge\<close> objects (\<open>executePurge\<close> keeps the object it looked up and
  writes its counters in place), so the objects live in \<open>purgeObjects\<close> and the
  map holds their addresses. An entry of \<open>activeScans\<close> is the object
  \<^verbatim>\<open>{ stop: boolean }\<close>, which the source never mutates after creation.
\<close>

record registry =
  activePurges :: "string \<rightharpoonup> nat"
  purgeObjects :: "nat \<Rightarrow> ActivePurge"
  nextPurge :: nat
  pendingConfirmations :: "string \<rightharpoonup> PendingConfirmation"
  activeScans :: "string \<rightharpoonup> bool"

text \<open>
  What the command handler calls \<^verbatim>\<open>sendBotMessage\<close> with before it returns,
  one constructor per message text.
\<close>

datatype bot_message =
    NoPendingConfirmation
  | AlreadyInProgress
  | StartingPurge nat
  | CannotCombineCountAndRange
  | ProvideCountOrRange
  | ScanningProgress nat
  | InvalidCount
  | GuildChannelsOnly
  | NeedManageMessages
  | InvalidUser
  | AnyRequiresManageMessages
  | InvalidMessageId

text \<open>
  Observable effects, in the order they happen: a \<^verbatim>\<open>sleep(ms)\<close>, a
  \<^verbatim>\<open>RestAPI.get\<close> on the messages endpoint of a channel with its
  \<open>before\<close> and \<open>after\<close> query fields, a \<^verbatim>\<open>RestAPI.del\<close> of one
  message, and a bot message sent to a channel.
\<close>

datatype event =
    Sleep nat
  | Get string "string option" "string option"
  | Del string string
  | Bot string bot_message

record world =
  reg :: registry
  clock :: nat
  events :: "event list"

text \<open>
  A rejected \<^verbatim>\<open>RestAPI.get\<close>: the \<open>status\<close> and \<open>retry_after\<close> fields
  of the thrown value, when it has them. \<open>retry_after\<close> is taken in whole
  seconds.
\<close>

datatype fetch_error = FetchError (status: "nat option") (retry_after: "nat option")

datatype response = Rejected fetch_error | Resolved "Message list option"

text \<open>
  Everything outside the module. \<open>restGet t ch before after\<close> and
  \<open>restDel t ch id\<close> are the outcomes of the transport calls issued when \<open>t\<close>
  awaits have completed. \<open>interfere t\<close> is what the other tasks of the event
  loop do to the registry while the \<open>t\<close>-th await is pending.
\<close>

record env =
  restGet :: "nat \<Rightarrow> string \<Rightarrow> string option \<Rightarrow> string option \<Rightarrow> response"
  restDel :: "nat \<Rightarrow> string \<Rightarrow> string \<Rightarrow> bool"
  interfere :: "nat \<Rightarrow> registry \<Rightarrow> registry"
  currentUserId :: string
  deleteDelay :: nat
  channelType :: "string \<Rightarrow> nat option"
  canManage :: "string \<Rightarrow> bool"

record DiscoverOptions =
  userId :: "string option"
  afterId :: "string option"
  beforeId :: "string option"
  limit :: "int option"
  onProgress :: "(nat \<Rightarrow> world \<Rightarrow> world) option"

definition BATCH_SIZE :: nat where "BATCH_SIZE = 100"
definition DISCOVERY_DELAY :: nat where "DISCOVERY_DELAY = 100"
definition MAX_CONSECUTIVE_ERRORS :: nat where "MAX_CONSECUTIVE_ERRORS = 3"
definition MAX_EMPTY_BATCHES :: nat where "MAX_EMPTY_BATCHES = 3"

text \<open>JavaScript truthiness of an optional string: \<open>undefined\<close> and \<open>""\<close> are falsy.\<close>

definition truthy :: "string option \<Rightarrow> bool" where
  "truthy v = (case v of None \<Rightarrow> False | Some s \<Rightarrow> s \<noteq> [])"

section \<open>Awaits, sleeping and fetching\<close>

definition await :: "env \<Rightarrow> world \<Rightarrow> world" where
  "await e w = w\<lparr>reg := interfere e (clock w) (reg w), clock := Suc (clock w)\<rparr>"

definition sleep :: "nat \<Rightarrow> env \<Rightarrow> world \<Rightarrow> world" where
  "sleep ms e w = await e (w\<lparr>events := events w @ [Sleep ms]\<rparr>)"

definition shouldStop :: "registry \<Rightarrow> string \<Rightarrow> bool" where
  "shouldStop r channelId =
     ((case activeScans r channelId of Some s \<Rightarrow> s | None \<Rightarrow> False) \<or>
      (case activePurges r channelId of Some p \<Rightarrow> stop (purgeObjects r p) | None \<Rightarrow> False))"

definition scanDelete :: "string \<Rightarrow> world \<Rightarrow> world" where
  "scanDelete channelId w = w\<lparr>reg := (reg w)\<lparr>activeScans := (activeScans (reg w))(channelId := None)\<rparr>\<rparr>"

definition fetchMessageBatch ::
  "env \<Rightarrow> string \<Rightarrow> string option \<Rightarrow> string option \<Rightarrow> world \<Rightarrow> (fetch_error + Message list) \<times> world" where
  "fetchMessageBatch e channelId before after w =
     (let b = (if truthy before then before else None);
          a = (if truthy after then after else None);
          w' = await e (w\<lparr>events := events w @ [Get channelId b a]\<rparr>)
      in (case restGet e (clock w) channelId b a of
            Rejected err \<Rightarrow> (Inl err, w')
          | Resolved body \<Rightarrow> (Inr (case body of None \<Rightarrow> [] | Some ms \<Rightarrow> ms), w')))"

definition isRateLimit :: "fetch_error \<Rightarrow> bool" where
  "isRateLimit err = (status err = Some 429)"

definition retryAfter :: "fetch_error \<Rightarrow> nat" where
  "retryAfter err =
     (if isRateLimit err
      then (case retry_after err of None \<Rightarrow> 1000 | Some n \<Rightarrow> if n = 0 then 1000 else n)
      else 0)"

definition retryDelay :: "fetch_error \<Rightarrow> nat \<Rightarrow> nat" where
  "retryDelay err retry =
     (if isRateLimit err
      then max (retryAfter err * 1000) (2000 * (retry + 1))
      else 1000 * 2 ^ retry)"

text \<open>
  The retry loop \<^verbatim>\<open>for (let retry = 0; retry < 5; retry++)\<close> around one page
  fetch; the result is \<open>Some batch\<close> when \<open>success\<close> is set.
\<close>

function fetchWithRetry ::
  "env \<Rightarrow> string \<Rightarrow> string option \<Rightarrow> nat \<Rightarrow> world \<Rightarrow> Message list option \<times> world" where
  "fetchWithRetry e channelId lastId retry w =
     (if retry < 5 then
        (case fetchMessageBatch e channelId lastId None w of
           (Inr batch, w1) \<Rightarrow> (Some batch, w1)
         | (Inl err, w1) \<Rightarrow>
             fetchWithRetry e channelId lastId (retry + 1) (sleep (retryDelay err retry) e w1))
      else (None, w))"
  by pat_completeness auto
termination
  by (relation "measure (\<lambda>(e, channelId, lastId, retry, w). 5 - retry)") auto

declare fetchWithRetry.simps [simp del]

text \<open>
  The verification loop \<^verbatim>\<open>for (let verifyAttempt = 0; verifyAttempt < 3; ...)\<close>,
  which the source repeats with a sleep of \<open>500 * (verifyAttempt + 1)\<close> after
  empty batches and of \<open>300 * (verifyAttempt + 1)\<close> after a short page. The
  result is \<open>Some verifyBatch\<close> when a non-empty batch came back.
\<close>

function verifyFetch ::
  "env \<Rightarrow> string \<Rightarrow> string option \<Rightarrow> nat \<Rightarrow> nat \<Rightarrow> world \<Rightarrow> Message list option \<times> world" where
  "verifyFetch e channelId lastId base verifyAttempt w =
     (if verifyAttempt < 3 then
        (case fetchMessageBatch e channelId lastId None w of
           (Inr verifyBatch, w1) \<Rightarrow>
             if verifyBatch \<noteq> [] then (Some verifyBatch, w1)
             else verifyFetch e channelId lastId base (verifyAttempt + 1)
                    (sleep (base * (verifyAttempt + 1)) e w1)
         | (Inl err, w1) \<Rightarrow>
             verifyFetch e channelId lastId base (verifyAttempt + 1)
               (sleep (base * (verifyAttempt + 1)) e w1))
      else (None, w))"
  by pat_completeness auto
termination
  by (relation "measure (\<lambda>(e, channelId, lastId, base, verifyAttempt, w). 3 - verifyAttempt)") auto

declare verifyFetch.simps [simp del]

section \<open>The two discovery walks\<close>

text \<open>
  A \<^verbatim>\<open>while (true)\<close> loop: the body either leaves the loop (\<open>Inl\<close>: a
  \<open>break\<close>, or a \<open>return\<close> of the accumulated messages) or goes round again
  (\<open>Inr\<close>). A loop that never leaves is \<open>None\<close>.
\<close>

partial_function (option) whileLoop :: "('s \<Rightarrow> 's + 's) \<Rightarrow> 's \<Rightarrow> 's option" where
  "whileLoop body s = (case body s of Inl s' \<Rightarrow> Some s' | Inr s' \<Rightarrow> whileLoop body s')"

declare whileLoop.simps [code]

text \<open>How a \<^verbatim>\<open>for (const msg of batch)\<close> loop ended.\<close>

datatype 'a flow = Completed 'a | Broke 'a | Returned 'a

fun flowState :: "'a flow \<Rightarrow> 'a" where
  "flowState (Completed s) = s"
| "flowState (Broke s) = s"
| "flowState (Returned s) = s"

text \<open>The local variables of \<open>discoverMessages\<close> and \<open>discoverRangeMessages\<close>.\<close>

record locals =
  messages :: "Message list"
  lastMessageId :: "string option"
  consecutiveErrors :: nat
  lastSuccessfulBatchSize :: nat
  lastReportedCount :: nat
  emptyBatchCount :: nat
  seenMessageIds :: "string set"
  collecting :: bool
  foundBoundary :: bool
  world :: world

definition limitReached :: "DiscoverOptions \<Rightarrow> Message list \<Rightarrow> bool" where
  "limitReached opts msgs =
     (case limit opts of None \<Rightarrow> False | Some n \<Rightarrow> n \<noteq> 0 \<and> n \<le> int (length msgs))"

definition authorMatches :: "string option \<Rightarrow> Message \<Rightarrow> bool" where
  "authorMatches uid msg = (\<not> truthy uid \<or> author_id msg = uid)"

fun collectBatch :: "string \<Rightarrow> DiscoverOptions \<Rightarrow> Message list \<Rightarrow> locals \<Rightarrow> locals flow" where
  "collectBatch channelId opts [] s = Completed s"
| "collectBatch channelId opts (msg # rest) s =
     (if shouldStop (reg (world s)) channelId
      then Returned (s\<lparr>world := scanDelete channelId (world s)\<rparr>)
      else if msg_id msg \<in> seenMessageIds s then collectBatch channelId opts rest s
      else
        let s1 = s\<lparr>seenMessageIds := insert (msg_id msg) (seenMessageIds s)\<rparr> in
        if authorMatches (userId opts) msg then
          let s2 = s1\<lparr>messages := messages s1 @ [msg]\<rparr> in
          if limitReached opts (messages s2) then Broke s2
          else collectBatch channelId opts rest s2
        else collectBatch channelId opts rest s1)"

definition reportProgress :: "DiscoverOptions \<Rightarrow> locals \<Rightarrow> locals" where
  "reportProgress opts s =
     (case onProgress opts of
        None \<Rightarrow> s
      | Some callback \<Rightarrow>
          if length (messages s) \<noteq> lastReportedCount s
          then s\<lparr>world := callback (length (messages s)) (world s),
                 lastReportedCount := length (messages s)\<rparr>
          else s)"

text \<open>
  The verification after a page shorter than \<open>BATCH_SIZE\<close>: \<open>batch\<close> is replaced
  by a non-empty verification batch, and the loop is left when \<open>batch\<close> is empty.
\<close>

definition verifyShortPage :: "env \<Rightarrow> string \<Rightarrow> Message list \<Rightarrow> locals \<Rightarrow> Message list \<times> locals" where
  "verifyShortPage e channelId batch s =
     (if length batch < BATCH_SIZE then
        (case verifyFetch e channelId (lastMessageId s) 300 0 (world s) of
           (Some verifyBatch, w1) \<Rightarrow> (verifyBatch, s\<lparr>world := w1\<rparr>)
         | (None, w1) \<Rightarrow> (batch, s\<lparr>world := w1\<rparr>))
      else (batch, s))"

text \<open>Lines 1347 to 1401: what one iteration does with a non-empty batch.\<close>

definition processBatch :: "env \<Rightarrow> string \<Rightarrow> DiscoverOptions \<Rightarrow> Message list \<Rightarrow> locals \<Rightarrow> locals + locals" where
  "processBatch e channelId opts batch s =
     (case collectBatch channelId opts batch (s\<lparr>lastSuccessfulBatchSize := length batch\<rparr>) of
        Returned s1 \<Rightarrow> Inl s1
      | fl \<Rightarrow>
          let s2 = reportProgress opts (flowState fl);
              newLastMessageId = Some (msg_id (last batch))
          in
          if batch \<noteq> [] \<and> truthy (lastMessageId s2) \<and> newLastMessageId = lastMessageId s2
          then Inl s2
          else
            let s3 = (if batch \<noteq> [] then s2\<lparr>lastMessageId := newLastMessageId\<rparr> else s2) in
            (case verifyShortPage e channelId batch s3 of
               (batch', s4) \<Rightarrow>
                 if batch' = [] then Inl s4
                 else if limitReached opts (messages s4) then Inl s4
                 else Inr (s4\<lparr>world := sleep DISCOVERY_DELAY e (world s4)\<rparr>)))"

text \<open>
  Lines 1316 to 1345, shared by both walks: an empty batch is counted; below
  \<open>MAX_EMPTY_BATCHES\<close> the loop sleeps and goes round again; at the bound it
  verifies (when there is a cursor) and either leaves or carries on with the
  verification batch. \<open>Proceed batch s\<close> hands a non-empty batch to the rest
  of the iteration.
\<close>

datatype 'a step = Leave 'a | Again 'a | Proceed "Message list" 'a

definition handleEmpty :: "env \<Rightarrow> string \<Rightarrow> Message list \<Rightarrow> locals \<Rightarrow> locals step" where
  "handleEmpty e channelId batch s =
     (if batch = [] then
        let s1 = s\<lparr>emptyBatchCount := emptyBatchCount s + 1\<rparr> in
        if MAX_EMPTY_BATCHES \<le> emptyBatchCount s1 then
          (if truthy (lastMessageId s1) then
             (case verifyFetch e channelId (lastMessageId s1) 500 0 (world s1) of
                (Some verifyBatch, w1) \<Rightarrow> Proceed verifyBatch (s1\<lparr>emptyBatchCount := 0, world := w1\<rparr>)
              | (None, w1) \<Rightarrow> Leave (s1\<lparr>world := w1\<rparr>))
           else Leave s1)
        else Again (s1\<lparr>world := sleep 300 e (world s1)\<rparr>)
      else Proceed batch (s\<lparr>emptyBatchCount := 0\<rparr>))"

definition discoverStep :: "env \<Rightarrow> string \<Rightarrow> DiscoverOptions \<Rightarrow> locals \<Rightarrow> locals + locals" where
  "discoverStep e channelId opts s =
     (if shouldStop (reg (world s)) channelId
      then Inl (s\<lparr>world := scanDelete channelId (world s)\<rparr>)
      else if limitReached opts (messages s) then Inl s
      else
        (case fetchWithRetry e channelId (lastMessageId s) 0 (world s) of
           (None, w1) \<Rightarrow>
             let s1 = s\<lparr>world := w1, consecutiveErrors := consecutiveErrors s + 1\<rparr> in
             if MAX_CONSECUTIVE_ERRORS \<le> consecutiveErrors s1 then Inl s1
             else Inr (s1\<lparr>world := sleep 1000 e (world s1)\<rparr>)
         | (Some batch, w1) \<Rightarrow>
             (case handleEmpty e channelId batch (s\<lparr>world := w1, consecutiveErrors := 0\<rparr>) of
                Leave s1 \<Rightarrow> Inl s1
              | Again s1 \<Rightarrow> Inr s1
              | Proceed batch' s1 \<Rightarrow> processBatch e channelId opts batch' s1)))"

definition initLocals :: "bool \<Rightarrow> world \<Rightarrow> locals" where
  "initLocals c w =
     \<lparr>messages = [], lastMessageId = None, consecutiveErrors = 0,
      lastSuccessfulBatchSize = 0, lastReportedCount = 0, emptyBatchCount = 0,
      seenMessageIds = {}, collecting = c, foundBoundary = False, world = w\<rparr>"

text \<open>The code after either loop: \<^verbatim>\<open>activeScans.delete(channelId); return messages\<close>.\<close>

definition finish :: "string \<Rightarrow> locals \<Rightarrow> Message list \<times> world" where
  "finish channelId s = (messages s, scanDelete channelId (world s))"

text \<open>
  The body of the \<^verbatim>\<open>for (const msg of batch)\<close> loop of
  \<open>discoverRangeMessages\<close> for a message not seen before, lines 1490 to 1529.
  The flag says whether the loop carries on with the next message (\<open>continue\<close>,
  or the end of the body) or is left (\<open>break\<close>).
\<close>

definition visitRange ::
  "string option \<Rightarrow> string option \<Rightarrow> string option \<Rightarrow> Message \<Rightarrow> locals \<Rightarrow> bool \<times> locals" where
  "visitRange uid aft bef msg s =
     (if truthy aft \<and> \<not> truthy bef \<and> Some (msg_id msg) = aft
      then (False, s\<lparr>foundBoundary := True, collecting := False, lastMessageId := Some (msg_id msg)\<rparr>)
      else if truthy bef \<and> \<not> truthy aft \<and> \<not> foundBoundary s
      then
        (if Some (msg_id msg) = bef
         then (True, s\<lparr>collecting := True, foundBoundary := True, lastMessageId := Some (msg_id msg)\<rparr>)
         else (True, s\<lparr>lastMessageId := Some (msg_id msg)\<rparr>))
      else if truthy aft \<and> truthy bef \<and> Some (msg_id msg) = bef
      then (True, s\<lparr>collecting := True, foundBoundary := True, lastMessageId := Some (msg_id msg)\<rparr>)
      else if truthy aft \<and> truthy bef \<and> Some (msg_id msg) = aft
      then (False, s\<lparr>collecting := False, foundBoundary := True, lastMessageId := Some (msg_id msg)\<rparr>)
      else
        (True, (if collecting s \<and> authorMatches uid msg
                then s\<lparr>messages := messages s @ [msg]\<rparr> else s)
               \<lparr>lastMessageId := Some (msg_id msg)\<rparr>))"

text \<open>
  The loop itself, lines 1482 to 1530. Its \<open>break\<close>s carry on after the loop, so
  only the state matters.
\<close>

fun collectRange ::
  "string \<Rightarrow> string option \<Rightarrow> string option \<Rightarrow> string option \<Rightarrow> Message list \<Rightarrow> locals \<Rightarrow> locals" where
  "collectRange channelId uid aft bef [] s = s"
| "collectRange channelId uid aft bef (msg # rest) s =
     (if shouldStop (reg (world s)) channelId then s
      else if msg_id msg \<in> seenMessageIds s then collectRange channelId uid aft bef rest s
      else
        (case visitRange uid aft bef msg (s\<lparr>seenMessageIds := insert (msg_id msg) (seenMessageIds s)\<rparr>) of
           (True, s1) \<Rightarrow> collectRange channelId uid aft bef rest s1
         | (False, s1) \<Rightarrow> s1))"

text \<open>Lines 1482 to 1555: what one iteration of the range walk does with a non-empty batch.\<close>

definition processRange ::
  "env \<Rightarrow> string \<Rightarrow> string option \<Rightarrow> string option \<Rightarrow> string option \<Rightarrow> Message list \<Rightarrow> locals
     \<Rightarrow> locals + locals" where
  "processRange e channelId uid aft bef batch s =
     (let s1 = collectRange channelId uid aft bef batch s in
      if truthy aft \<and> foundBoundary s1 \<and> \<not> collecting s1 then Inl s1
      else if truthy aft \<and> truthy bef \<and> foundBoundary s1 \<and> \<not> collecting s1 then Inl s1
      else if truthy bef \<and> \<not> truthy aft \<and> \<not> foundBoundary s1 \<and> length batch < BATCH_SIZE then Inl s1
      else
        (case verifyShortPage e channelId batch s1 of
           (batch', s2) \<Rightarrow>
             if batch' = [] then Inl s2
             else Inr (s2\<lparr>world := sleep DISCOVERY_DELAY e (world s2)\<rparr>)))"

definition rangeStep ::
  "env \<Rightarrow> string \<Rightarrow> string option \<Rightarrow> string option \<Rightarrow> string option \<Rightarrow> locals \<Rightarrow> locals + locals" where
  "rangeStep e channelId uid aft bef s =
     (if shouldStop (reg (world s)) channelId
      then Inl (s\<lparr>world := scanDelete channelId (world s)\<rparr>)
      else
        (case fetchWithRetry e channelId (lastMessageId s) 0 (world s) of
           (None, w1) \<Rightarrow> Inl (s\<lparr>world := w1\<rparr>)
         | (Some batch, w1) \<Rightarrow>
             (case handleEmpty e channelId batch (s\<lparr>world := w1\<rparr>) of
                Leave s1 \<Rightarrow> Inl s1
              | Again s1 \<Rightarrow> Inr s1
              | Proceed batch' s1 \<Rightarrow> processRange e channelId uid aft bef batch' s1)))"

text \<open>
  \<open>discoverRangeMessages(channelId, { userId, afterId, beforeId })\<close>. The result is
  the returned list and the world it leaves; \<open>None\<close> is a walk that never returns.
\<close>

definition discoverRangeMessages ::
  "env \<Rightarrow> string \<Rightarrow> string option \<Rightarrow> string option \<Rightarrow> string option \<Rightarrow> world
     \<Rightarrow> (Message list \<times> world) option" where
  "discoverRangeMessages e channelId uid aft bef w =
     map_option (finish channelId)
       (whileLoop (rangeStep e channelId uid aft bef)
          (initLocals (truthy aft \<and> \<not> truthy bef) w))"

definition discoverMessages ::
  "env \<Rightarrow> string \<Rightarrow> DiscoverOptions \<Rightarrow> world \<Rightarrow> (Message list \<times> world) option" where
  "discoverMessages e channelId opts w =
     (if shouldStop (reg w) channelId then Some ([], scanDelete channelId w)
      else if truthy (afterId opts) \<or> truthy (beforeId opts)
      then discoverRangeMessages e channelId (userId opts) (afterId opts) (beforeId opts) w
      else map_option (finish channelId)
             (whileLoop (discoverStep e channelId opts) (initLocals False w)))"

section \<open>The deletion executor\<close>

definition deleteMessage :: "env \<Rightarrow> string \<Rightarrow> string \<Rightarrow> world \<Rightarrow> bool \<times> world" where
  "deleteMessage e channelId mid w =
     (restDel e (clock w) channelId mid, await e (w\<lparr>events := events w @ [Del channelId mid]\<rparr>))"

definition setDeleted :: "nat \<Rightarrow> nat \<Rightarrow> world \<Rightarrow> world" where
  "setDeleted p n w =
     w\<lparr>reg := (reg w)\<lparr>purgeObjects := (purgeObjects (reg w))(p := (purgeObjects (reg w) p)\<lparr>deleted := n\<rparr>)\<rparr>\<rparr>"

definition setFailed :: "nat \<Rightarrow> nat \<Rightarrow> world \<Rightarrow> world" where
  "setFailed p n w =
     w\<lparr>reg := (reg w)\<lparr>purgeObjects := (purgeObjects (reg w))(p := (purgeObjects (reg w) p)\<lparr>failed := n\<rparr>)\<rparr>\<rparr>"

definition deletionDelay :: "env \<Rightarrow> nat" where
  "deletionDelay e = (if deleteDelay e = 0 then 200 else deleteDelay e)"

definition excluded :: "string set option \<Rightarrow> string \<Rightarrow> bool" where
  "excluded excludeIds mid = (case excludeIds of None \<Rightarrow> False | Some X \<Rightarrow> mid \<in> X)"

text \<open>
  The loop of \<open>executePurge\<close> over \<open>messages[i..]\<close>, with \<open>p\<close> the purge object
  looked up at entry and \<open>(d, f)\<close> the local counters. The test
  \<open>i < messages.length - 1\<close> is that a message follows the current one.
\<close>

fun purgeLoop ::
  "env \<Rightarrow> string \<Rightarrow> nat \<Rightarrow> bool \<Rightarrow> string set option \<Rightarrow> Message list \<Rightarrow> nat \<times> nat \<Rightarrow> world
     \<Rightarrow> (nat \<times> nat) \<times> world" where
  "purgeLoop e channelId p canDeleteOthers excludeIds [] (d, f) w = ((d, f), w)"
| "purgeLoop e channelId p canDeleteOthers excludeIds (msg # rest) (d, f) w =
     (if stop (purgeObjects (reg w) p) then ((d, f), w)
      else if excluded excludeIds (msg_id msg)
      then purgeLoop e channelId p canDeleteOthers excludeIds rest (d, f) w
      else if author_id msg \<noteq> Some (currentUserId e) \<and> \<not> canDeleteOthers
      then purgeLoop e channelId p canDeleteOthers excludeIds rest (d, f) w
      else
        (case deleteMessage e channelId (msg_id msg) w of
           (True, w1) \<Rightarrow>
             let w2 = setDeleted p (d + 1) w1;
                 w3 = (if rest \<noteq> [] then sleep (deletionDelay e) e w2 else w2)
             in purgeLoop e channelId p canDeleteOthers excludeIds rest (d + 1, f) w3
         | (False, w1) \<Rightarrow>
             purgeLoop e channelId p canDeleteOthers excludeIds rest (d, f + 1)
               (setFailed p (f + 1) w1)))"

definition executePurge ::
  "env \<Rightarrow> string \<Rightarrow> Message list \<Rightarrow> bool \<Rightarrow> string set option \<Rightarrow> world \<Rightarrow> (nat \<times> nat) \<times> world" where
  "executePurge e channelId msgs canDeleteOthers excludeIds w =
     (case activePurges (reg w) channelId of
        None \<Rightarrow> ((0, 0), w)
      | Some p \<Rightarrow> purgeLoop e channelId p canDeleteOthers excludeIds msgs (0, 0) w)"

section \<open>The command handler\<close>

text \<open>
  The value of a command option: a string, or (for the \<open>target\<close> of
  \<open>/vpurge user\<close>) an object with an optional \<open>id\<close>. \<open>opts[0]\<close> is the
  subcommand, a name with its options.
\<close>

datatype option_value = StringValue string | ObjectValue "string option"

type_synonym subcommand = "string \<times> (string \<times> option_value) list"

definition getSubcommandOption :: "subcommand list \<Rightarrow> string \<Rightarrow> option_value option" where
  "getSubcommandOption opts name =
     (case opts of [] \<Rightarrow> None | subcmd # rest \<Rightarrow> map_of (snd subcmd) name)"

text \<open>An option of type STRING, read with \<^verbatim>\<open>as string | undefined\<close>.\<close>

definition stringOption :: "subcommand list \<Rightarrow> string \<Rightarrow> string option" where
  "stringOption opts name =
     (case getSubcommandOption opts name of Some (StringValue s) \<Rightarrow> Some s | _ \<Rightarrow> None)"

text \<open>
  White space as \<open>trim\<close> and \<open>parseInt\<close> see it, among the ASCII characters:
  tab, line feed, vertical tab, form feed, carriage return and space.
\<close>

definition isWhiteSpace :: "char \<Rightarrow> bool" where
  "isWhiteSpace c = (of_char c \<in> {9, 10, 11, 12, 13, 32 :: nat})"

definition trim :: "string \<Rightarrow> string" where
  "trim s = rev (dropWhile isWhiteSpace (rev (dropWhile isWhiteSpace s)))"

fun splitOn :: "(char \<Rightarrow> bool) \<Rightarrow> string \<Rightarrow> string \<Rightarrow> string list" where
  "splitOn sep cur [] = [rev cur]"
| "splitOn sep cur (c # cs) =
     (if sep c then rev cur # splitOn sep [] cs else splitOn sep (c # cur) cs)"

text \<open>
  \<open>excludeStr.split(/[, ]+/).map(id => id.trim()).filter(id => id.length > 0)\<close>
  as a set: the pieces between commas and spaces, trimmed, the empty ones dropped.
\<close>

definition parseExcludeIds :: "string option \<Rightarrow> string set" where
  "parseExcludeIds excludeStr =
     (if \<not> truthy excludeStr then {}
      else set (filter (\<lambda>t. t \<noteq> [])
                 (map trim (splitOn (\<lambda>c. c = CHR '','' \<or> c = CHR '' '') [] (the excludeStr)))))"

definition isDigit :: "char \<Rightarrow> bool" where
  "isDigit c = (48 \<le> (of_char c :: nat) \<and> (of_char c :: nat) \<le> 57)"

text \<open>\<open>parseInt(s, 10)\<close>; \<open>None\<close> is \<open>NaN\<close>.\<close>

definition parseInt :: "string \<Rightarrow> int option" where
  "parseInt s =
     (let t = dropWhile isWhiteSpace s;
          negative = (t \<noteq> [] \<and> hd t = CHR ''-'');
          u = (if t \<noteq> [] \<and> (hd t = CHR ''-'' \<or> hd t = CHR ''+'') then tl t else t);
          ds = takeWhile isDigit u;
          n = foldl (\<lambda>acc c. 10 * acc + (int (of_char c) - 48)) 0 ds
      in if ds = [] then None else Some (if negative then - n else n))"

text \<open>\<open>countStr.toLowerCase() === "all"\<close>.\<close>

definition isAll :: "string \<Rightarrow> bool" where
  "isAll s =
     (length s = 3 \<and> s ! 0 \<in> {CHR ''a'', CHR ''A''} \<and> s ! 1 \<in> {CHR ''l'', CHR ''L''} \<and>
      s ! 2 \<in> {CHR ''l'', CHR ''L''})"

definition isDM :: "env \<Rightarrow> string \<Rightarrow> bool" where
  "isDM e channelId = (case channelType e channelId of None \<Rightarrow> False | Some t \<Rightarrow> t = 1 \<or> t = 3)"

definition canManageMessages :: "env \<Rightarrow> string \<Rightarrow> bool" where
  "canManageMessages e channelId =
     (if isDM e channelId then False
      else (case channelType e channelId of None \<Rightarrow> False | Some t \<Rightarrow> canManage e channelId))"

text \<open>The text of \<open>formatRangeText\<close>, by its three shapes.\<close>

datatype range_text = BetweenIds string string | AfterId string | BeforeId "string option"

definition formatRangeText :: "string option \<Rightarrow> string option \<Rightarrow> range_text" where
  "formatRangeText aft bef =
     (if truthy aft \<and> truthy bef then BetweenIds (the aft) (the bef)
      else if truthy aft then AfterId (the aft)
      else BeforeId bef)"

text \<open>
  What a call of the handler leaves running when it returns: the asynchronous
  function of the confirm branch, a scan (\<open>discoverMessages\<close> with its
  \<open>then\<close>/\<open>catch\<close>), or the rest of \<open>runPurge\<close>.
\<close>

datatype task =
    ConfirmTask PendingConfirmation
  | ScanTask "string option" purge_mode "string set"
  | PurgeTask "string option" "string option" "string option" "int option" bool "string set" "range_text option"

definition sendBotMessage :: "string \<Rightarrow> bot_message \<Rightarrow> world \<Rightarrow> world" where
  "sendBotMessage channelId m w = w\<lparr>events := events w @ [Bot channelId m]\<rparr>"

text \<open>
  \<^verbatim>\<open>const purge = { stop: false, deleted: 0, failed: 0 }; activePurges.set(channelId, purge)\<close>:
  a new object at the next free address.
\<close>

definition newPurge :: "string \<Rightarrow> world \<Rightarrow> world" where
  "newPurge channelId w =
     w\<lparr>reg := (reg w)\<lparr>
        activePurges := (activePurges (reg w))(channelId \<mapsto> nextPurge (reg w)),
        purgeObjects := (purgeObjects (reg w))
                          (nextPurge (reg w) := \<lparr>stop = False, deleted = 0, failed = 0\<rparr>),
        nextPurge := Suc (nextPurge (reg w))\<rparr>\<rparr>"

text \<open>
  A call \<open>runPurge(channelId, { userId, afterId, beforeId, limit }, canDeleteOthers,
  excludeIds, rangeText)\<close> as far as it runs inside the handler.
\<close>

definition runPurge ::
  "string \<Rightarrow> string option \<Rightarrow> string option \<Rightarrow> string option \<Rightarrow> int option \<Rightarrow> bool \<Rightarrow> string set
     \<Rightarrow> range_text option \<Rightarrow> world \<Rightarrow> world \<times> task option" where
  "runPurge channelId uid aft bef lim canDeleteOthers excludeIds rangeText w =
     (newPurge channelId w, Some (PurgeTask uid aft bef lim canDeleteOthers excludeIds rangeText))"

text \<open>
  The part that the subcommands \<open>self\<close>, \<open>user\<close> and \<open>any\<close> have in common
  (lines 1899 to 1992, 2023 to 2116 and 2131 to 2221), with the author filter, the
  permission to delete others' messages and the mode stored with a confirmation.
\<close>

definition countOrRange ::
  "string \<Rightarrow> subcommand list \<Rightarrow> string option \<Rightarrow> bool \<Rightarrow> purge_mode \<Rightarrow> world \<Rightarrow> world \<times> task option" where
  "countOrRange channelId opts uid canDeleteOthers mode w =
     (let countStr = stringOption opts ''count'';
          aft = stringOption opts ''after'';
          bef = stringOption opts ''before'';
          excludeIds = parseExcludeIds (stringOption opts ''exclude'')
      in
      if truthy aft \<or> truthy bef then
        (if truthy countStr then (sendBotMessage channelId CannotCombineCountAndRange w, None)
         else runPurge channelId uid aft bef None canDeleteOthers excludeIds
                (Some (formatRangeText aft bef)) w)
      else if \<not> truthy countStr then (sendBotMessage channelId ProvideCountOrRange w, None)
      else if isAll (the countStr) then
        (let w1 = sendBotMessage channelId (ScanningProgress 0) w in
         (w1\<lparr>reg := (reg w1)\<lparr>activeScans := (activeScans (reg w1))(channelId \<mapsto> False)\<rparr>\<rparr>,
          Some (ScanTask uid mode excludeIds)))
      else
        (case parseInt (the countStr) of
           None \<Rightarrow> (sendBotMessage channelId InvalidCount w, None)
         | Some n \<Rightarrow>
             if n < 1 then (sendBotMessage channelId InvalidCount w, None)
             else runPurge channelId uid None None (Some n) canDeleteOthers excludeIds None w))"

text \<open>The subcommands \<open>after\<close> and \<open>before\<close>, lines 2224 to 2274.\<close>

definition afterOrBefore :: "env \<Rightarrow> string \<Rightarrow> subcommand list \<Rightarrow> bool \<Rightarrow> world \<Rightarrow> world \<times> task option" where
  "afterOrBefore e channelId opts isAfter w =
     (let messageId = stringOption opts ''message_id'';
          other = stringOption opts (if isAfter then ''before'' else ''after'');
          excludeIds = parseExcludeIds (stringOption opts ''exclude'')
      in
      if \<not> truthy messageId then (sendBotMessage channelId InvalidMessageId w, None)
      else
        let canDeleteOthers = (\<not> isDM e channelId \<and> canManageMessages e channelId);
            uid = (if canDeleteOthers then None else Some (currentUserId e))
        in
        if isAfter
        then runPurge channelId uid messageId other None canDeleteOthers excludeIds
               (Some (formatRangeText messageId other)) w
        else runPurge channelId uid (if truthy other then other else None) messageId None
               canDeleteOthers excludeIds (Some (formatRangeText other messageId)) w)"

text \<open>
  \<open>execute(opts, ctx)\<close> for the channel \<open>ctx.channel.id\<close>, as far as it runs
  before it returns: the world it leaves, and the task it has started, if any.
  \<open>subcommandName opts\<close> is \<^verbatim>\<open>opts[0]?.name\<close>.
\<close>

definition subcommandName :: "subcommand list \<Rightarrow> string option" where
  "subcommandName opts = (case opts of [] \<Rightarrow> None | subcmd # rest \<Rightarrow> Some (fst subcmd))"

definition execute :: "env \<Rightarrow> string \<Rightarrow> subcommand list \<Rightarrow> world \<Rightarrow> world \<times> task option" where
  "execute e channelId opts w =
     (let subcommand = subcommandName opts in
      if subcommand = Some ''confirm'' then
        (case pendingConfirmations (reg w) channelId of
           None \<Rightarrow> (sendBotMessage channelId NoPendingConfirmation w, None)
         | Some confirmation \<Rightarrow>
             let w1 = w\<lparr>reg := (reg w)\<lparr>pendingConfirmations :=
                         (pendingConfirmations (reg w))(channelId := None)\<rparr>\<rparr>
             in
             if activePurges (reg w1) channelId \<noteq> None
             then (sendBotMessage channelId AlreadyInProgress w1, None)
             else (sendBotMessage channelId (StartingPurge (pcCount confirmation)) (newPurge channelId w1),
                   Some (ConfirmTask confirmation)))
      else if activePurges (reg w) channelId \<noteq> None
      then (sendBotMessage channelId AlreadyInProgress w, None)
      else if subcommand = Some ''self''
      then countOrRange channelId opts (Some (currentUserId e)) False ModeSelf w
      else if subcommand = Some ''user'' then
        (if isDM e channelId then (sendBotMessage channelId GuildChannelsOnly w, None)
         else if \<not> canManageMessages e channelId then (sendBotMessage channelId NeedManageMessages w, None)
         else
           (case getSubcommandOption opts ''target'' of
              Some (StringValue targetUserId) \<Rightarrow>
                countOrRange channelId opts (Some targetUserId) True ModeUser w
            | Some (ObjectValue (Some targetUserId)) \<Rightarrow>
                if targetUserId \<noteq> [] then countOrRange channelId opts (Some targetUserId) True ModeUser w
                else (sendBotMessage channelId InvalidUser w, None)
            | _ \<Rightarrow> (sendBotMessage channelId InvalidUser w, None)))
      else if subcommand = Some ''any'' then
        (let canDeleteOthers = (\<not> isDM e channelId \<and> canManageMessages e channelId) in
         if \<not> canDeleteOthers then (sendBotMessage channelId AnyRequiresManageMessages w, None)
         else countOrRange channelId opts None canDeleteOthers ModeSelf w)
      else if subcommand = Some ''after'' then afterOrBefore e channelId opts True w
      else if subcommand = Some ''before'' then afterOrBefore e channelId opts False w
      else (w, None))"

section \<open>Properties of a walk, and the environments of the examples\<close>

text \<open>The list collected so far has no two messages with the same id, and every id in it has been seen.\<close>

definition noDuplicates :: "locals \<Rightarrow> bool" where
  "noDuplicates s =
     (distinct (map msg_id (messages s)) \<and> msg_id ` set (messages s) \<subseteq> seenMessageIds s)"

text \<open>
  A channel history is the list of the channel's messages, newest first. A
  transport that serves a history answers a request with cursor \<open>before\<close> by the
  first \<open>BATCH_SIZE\<close> messages that follow the message with that id, and a request
  without cursor by the first \<open>BATCH_SIZE\<close> messages.
\<close>

definition olderThan :: "Message list \<Rightarrow> string option \<Rightarrow> Message list" where
  "olderThan h before =
     (case before of None \<Rightarrow> h | Some b \<Rightarrow> tl (dropWhile (\<lambda>m. msg_id m \<noteq> b) h))"

definition historyPage :: "Message list \<Rightarrow> string option \<Rightarrow> Message list" where
  "historyPage h before = take BATCH_SIZE (olderThan h before)"

definition servesHistory :: "env \<Rightarrow> string \<Rightarrow> Message list \<Rightarrow> bool" where
  "servesHistory e channelId h =
     (\<forall>t before after. restGet e t channelId before after = Resolved (Some (historyPage h before)))"

text \<open>No other task ever requests a stop for the channel.\<close>

definition neverCancels :: "env \<Rightarrow> string \<Rightarrow> bool" where
  "neverCancels e channelId =
     (\<forall>t r. \<not> shouldStop r channelId \<longrightarrow> \<not> shouldStop (interfere e t r) channelId)"

definition quietEnv :: "(nat \<Rightarrow> string \<Rightarrow> string option \<Rightarrow> string option \<Rightarrow> response) \<Rightarrow> env" where
  "quietEnv get =
     \<lparr>restGet = get, restDel = (\<lambda>t ch mid. True), interfere = (\<lambda>t r. r),
      currentUserId = ''me'', deleteDelay = 0,
      channelType = (\<lambda>ch. Some 0), canManage = (\<lambda>ch. True)\<rparr>"

definition historyEnv :: "Message list \<Rightarrow> env" where
  "historyEnv h = quietEnv (\<lambda>t ch before after. Resolved (Some (historyPage h before)))"

definition emptyRegistry :: registry where
  "emptyRegistry =
     \<lparr>activePurges = Map.empty,
      purgeObjects = (\<lambda>p. \<lparr>stop = False, deleted = 0, failed = 0\<rparr>),
      nextPurge = 0, pendingConfirmations = Map.empty, activeScans = Map.empty\<rparr>"

definition emptyWorld :: world where
  "emptyWorld = \<lparr>reg = emptyRegistry, clock = 0, events = []\<rparr>"

definition mkMessage :: "string \<Rightarrow> string \<Rightarrow> Message" where
  "mkMessage i a = \<lparr>msg_id = i, author_id = Some a, timestamp = []\<rparr>"

definition plainOptions :: DiscoverOptions where
  "plainOptions = \<lparr>userId = None, afterId = None, beforeId = None, limit = None, onProgress = None\<rparr>"



text \<open>The ids handed to \<^verbatim>\<open>RestAPI.del\<close> in a log of events, in order.\<close>

fun deletedId :: "event \<Rightarrow> string option" where
  "deletedId (Del channelId mid) = Some mid"
| "deletedId ev = None"

definition deletedIds :: "event list \<Rightarrow> string list" where
  "deletedIds evs = List.map_filter deletedId evs"

text \<open>
  A message that \<open>executePurge\<close> does not skip: its id is not excluded, and it is
  the current user's own or others' messages may be deleted.
\<close>

definition eligible :: "env \<Rightarrow> bool \<Rightarrow> string set option \<Rightarrow> Message \<Rightarrow> bool" where
  "eligible e canDeleteOthers excludeIds msg =
     (\<not> excluded excludeIds (msg_id msg) \<and>
      (author_id msg = Some (currentUserId e) \<or> canDeleteOthers))"

text \<open>No other task ever sets the \<open>stop\<close> flag of the purge object \<open>p\<close>.\<close>

definition neverStopsPurge :: "env \<Rightarrow> nat \<Rightarrow> bool" where
  "neverStopsPurge e p =
     (\<forall>t r. \<not> stop (purgeObjects r p) \<longrightarrow> \<not> stop (purgeObjects (interfere e t r) p))"

text \<open>A world in which the channel \<open>c\<close> has a purge running and, or, a confirmation pending.\<close>

definition purgingWorld :: world where
  "purgingWorld =
     emptyWorld\<lparr>reg := emptyRegistry\<lparr>activePurges := [''c'' \<mapsto> 0], nextPurge := 1\<rparr>\<rparr>"

definition somePending :: PendingConfirmation where
  "somePending = \<lparr>pcCount = 2, pcUserId = Some ''me'', pcMode = ModeSelf, pcExcludeIds = Some {}\<rparr>"

definition pendingWorld :: world where
  "pendingWorld =
     emptyWorld\<lparr>reg := emptyRegistry\<lparr>pendingConfirmations := [''c'' \<mapsto> somePending]\<rparr>\<rparr>"

definition purgingPendingWorld :: world where
  "purgingPendingWorld =
     emptyWorld\<lparr>reg := emptyRegistry\<lparr>activePurges := [''c'' \<mapsto> 0], nextPurge := 1,
                                        pendingConfirmations := [''c'' \<mapsto> somePending]\<rparr>\<rparr>"

text \<open>
  A well-formed history: no two messages share an id, and no id is the empty string.
\<close>

definition wellFormedHistory :: "Message list \<Rightarrow> bool" where
  "wellFormedHistory h = (distinct (map msg_id h) \<and> [] \<notin> msg_id ` set h)"

text \<open>The cursor after the \<open>k\<close> newest messages of a history have been walked.\<close>

definition cursorAt :: "Message list \<Rightarrow> nat \<Rightarrow> string option" where
  "cursorAt h k = (if k = 0 then None else Some (msg_id (h ! (k - 1))))"

text \<open>
  The state of a walk that has consumed exactly the \<open>k\<close> newest messages of the
  history, page by page, and has not been asked to stop.
\<close>

definition walked :: "Message list \<Rightarrow> string \<Rightarrow> nat \<Rightarrow> locals \<Rightarrow> bool" where
  "walked h channelId k s =
     (k \<le> length h \<and> seenMessageIds s = msg_id ` set (take k h) \<and>
      lastMessageId s = cursorAt h k \<and> emptyBatchCount s = 0 \<and>
      \<not> shouldStop (reg (world s)) channelId)"

text \<open>A progress callback that never requests a stop for the channel.\<close>

definition quietProgress :: "DiscoverOptions \<Rightarrow> string \<Rightarrow> bool" where
  "quietProgress opts channelId =
     (\<forall>callback n w. onProgress opts = Some callback \<longrightarrow> \<not> shouldStop (reg w) channelId \<longrightarrow>
        \<not> shouldStop (reg (callback n w)) channelId)"



section \<open>Rules for the loop\<close>

text \<open>Partial correctness: an invariant of the body holds of whatever the loop returns.\<close>

lemma whileLoop_invariant:
  assumes run: "whileLoop body s = Some r"
    and init: "I s"
    and again: "\<And>s s'. I s \<Longrightarrow> body s = Inr s' \<Longrightarrow> I s'"
    and leave: "\<And>s s'. I s \<Longrightarrow> body s = Inl s' \<Longrightarrow> Q s'"
  shows "Q r"
proof -
  have "body = body \<longrightarrow> I s \<longrightarrow> Q r"
  proof (rule whileLoop.raw_induct[where P = "\<lambda>b s r. b = body \<longrightarrow> I s \<longrightarrow> Q r"])
    fix loop :: "('a \<Rightarrow> 'a + 'a) \<Rightarrow> 'a \<Rightarrow> 'a option" and b s r
    assume IH: "\<And>b s r. loop b s = Some r \<Longrightarrow> b = body \<longrightarrow> I s \<longrightarrow> Q r"
      and unfold: "(case b s of Inl s' \<Rightarrow> Some s' | Inr s' \<Rightarrow> loop b s') = Some r"
    show "b = body \<longrightarrow> I s \<longrightarrow> Q r"
    proof (intro impI)
      assume b: "b = body" and Is: "I s"
      show "Q r"
      proof (cases "body s")
        case (Inl s')
        with unfold b have "r = s'" by simp
        with leave[OF Is Inl] show ?thesis by simp
      next
        case (Inr s')
        with unfold b have "loop body s' = Some r" by simp
        from IH[OF this] again[OF Is Inr] show ?thesis by simp
      qed
    qed
  next
    show "whileLoop body s = Some r" by (rule run)
  qed
  with init show ?thesis by simp
qed

text \<open>Total correctness: with a measure that every further round decreases, the loop returns.\<close>

lemma whileLoop_total:
  fixes m :: "'s \<Rightarrow> nat"
  assumes init: "I s"
    and step: "\<And>s. I s \<Longrightarrow> (case body s of Inl r \<Rightarrow> Q r | Inr s' \<Rightarrow> I s' \<and> m s' < m s)"
  shows "\<exists>r. whileLoop body s = Some r \<and> Q r"
  using init
proof (induction s rule: measure_induct_rule[where f = m])
  case (less s)
  show ?case
  proof (cases "body s")
    case (Inl r)
    with step[OF less.prems] have "Q r" by simp
    with Inl show ?thesis by (subst whileLoop.simps) simp
  next
    case (Inr s')
    with step[OF less.prems] have "I s'" "m s' < m s" by simp_all
    from less.IH[OF this(2) this(1)] Inr show ?thesis by (subst whileLoop.simps) simp
  qed
qed

lemmas run_defs =
  discoverMessages_def discoverRangeMessages_def whileLoop.simps discoverStep_def rangeStep_def
  processBatch_def processRange_def handleEmpty_def verifyShortPage_def verifyFetch.simps
  fetchWithRetry.simps fetchMessageBatch_def await_def sleep_def scanDelete_def shouldStop_def
  truthy_def reportProgress_def limitReached_def authorMatches_def initLocals_def finish_def
  visitRange_def retryDelay_def retryAfter_def isRateLimit_def BATCH_SIZE_def DISCOVERY_DELAY_def
  MAX_CONSECUTIVE_ERRORS_def MAX_EMPTY_BATCHES_def Let_def

lemmas example_defs =
  olderThan_def historyPage_def quietEnv_def historyEnv_def emptyRegistry_def emptyWorld_def
  mkMessage_def plainOptions_def

section \<open>Deduplication\<close>

lemma noDuplicates_update [simp]:
  "noDuplicates (s\<lparr>lastMessageId := l\<rparr>) = noDuplicates s"
  "noDuplicates (s\<lparr>consecutiveErrors := n\<rparr>) = noDuplicates s"
  "noDuplicates (s\<lparr>lastSuccessfulBatchSize := n\<rparr>) = noDuplicates s"
  "noDuplicates (s\<lparr>lastReportedCount := n\<rparr>) = noDuplicates s"
  "noDuplicates (s\<lparr>emptyBatchCount := n\<rparr>) = noDuplicates s"
  "noDuplicates (s\<lparr>collecting := c\<rparr>) = noDuplicates s"
  "noDuplicates (s\<lparr>foundBoundary := c\<rparr>) = noDuplicates s"
  "noDuplicates (s\<lparr>world := w\<rparr>) = noDuplicates s"
  by (simp_all add: noDuplicates_def)

lemma collectBatch_noDuplicates:
  "noDuplicates s \<Longrightarrow> noDuplicates (flowState (collectBatch channelId opts batch s))"
proof (induction batch arbitrary: s)
  case Nil
  then show ?case by simp
next
  case (Cons msg rest)
  show ?case
  proof (cases "shouldStop (reg (world s)) channelId")
    case True
    with Cons.prems show ?thesis by (simp add: noDuplicates_def)
  next
    case False
    show ?thesis
    proof (cases "msg_id msg \<in> seenMessageIds s")
      case True
      with False Cons show ?thesis by simp
    next
      case fresh: False
      let ?s1 = "s\<lparr>seenMessageIds := insert (msg_id msg) (seenMessageIds s)\<rparr>"
      let ?s2 = "?s1\<lparr>messages := messages ?s1 @ [msg]\<rparr>"
      from Cons.prems fresh have n1: "noDuplicates ?s1" and n2: "noDuplicates ?s2"
        by (auto simp: noDuplicates_def)
      from Cons.IH[OF n1] Cons.IH[OF n2] n2 False fresh show ?thesis
        by (simp add: Let_def)
    qed
  qed
qed

lemma visitRange_noDuplicates:
  "noDuplicates s \<Longrightarrow> msg_id msg \<in> seenMessageIds s \<Longrightarrow> msg_id msg \<notin> msg_id ` set (messages s)
    \<Longrightarrow> noDuplicates (snd (visitRange uid aft bef msg s))"
  by (auto simp: visitRange_def noDuplicates_def)

lemma collectRange_noDuplicates:
  "noDuplicates s \<Longrightarrow> noDuplicates (collectRange channelId uid aft bef batch s)"
proof (induction batch arbitrary: s)
  case Nil
  then show ?case by simp
next
  case (Cons msg rest)
  show ?case
  proof (cases "shouldStop (reg (world s)) channelId \<or> msg_id msg \<in> seenMessageIds s")
    case True
    with Cons show ?thesis by auto
  next
    case False
    let ?s1 = "s\<lparr>seenMessageIds := insert (msg_id msg) (seenMessageIds s)\<rparr>"
    from Cons.prems False have "noDuplicates ?s1" "msg_id msg \<in> seenMessageIds ?s1"
      "msg_id msg \<notin> msg_id ` set (messages ?s1)"
      by (auto simp: noDuplicates_def)
    from visitRange_noDuplicates[OF this, of uid aft bef] False show ?thesis
      by (auto simp: Cons.IH split: prod.splits bool.splits)
  qed
qed

lemma reportProgress_noDuplicates [simp]: "noDuplicates (reportProgress opts s) = noDuplicates s"
  by (simp add: reportProgress_def split: option.splits)

lemma verifyShortPage_noDuplicates:
  "verifyShortPage e channelId batch s = (batch', s') \<Longrightarrow> noDuplicates s' = noDuplicates s"
  by (auto simp: verifyShortPage_def split: if_splits prod.splits option.splits)

lemma handleEmpty_noDuplicates:
  "handleEmpty e channelId batch s = Leave s' \<Longrightarrow> noDuplicates s \<Longrightarrow> noDuplicates s'"
  "handleEmpty e channelId batch s = Again s' \<Longrightarrow> noDuplicates s \<Longrightarrow> noDuplicates s'"
  "handleEmpty e channelId batch s = Proceed b s' \<Longrightarrow> noDuplicates s \<Longrightarrow> noDuplicates s'"
  by (auto simp: handleEmpty_def Let_def split: prod.splits option.splits if_splits)

lemma processBatch_noDuplicates:
  assumes "noDuplicates s"
  shows "processBatch e channelId opts batch s = Inl s' \<Longrightarrow> noDuplicates s'"
    and "processBatch e channelId opts batch s = Inr s' \<Longrightarrow> noDuplicates s'"
proof -
  from assms have "noDuplicates (s\<lparr>lastSuccessfulBatchSize := length batch\<rparr>)" by simp
  note c = collectBatch_noDuplicates[OF this, of channelId opts batch]
  show "processBatch e channelId opts batch s = Inl s' \<Longrightarrow> noDuplicates s'"
    using c by (auto simp: processBatch_def Let_def dest: verifyShortPage_noDuplicates
        split: flow.splits prod.splits if_splits)
  show "processBatch e channelId opts batch s = Inr s' \<Longrightarrow> noDuplicates s'"
    using c by (auto simp: processBatch_def Let_def dest: verifyShortPage_noDuplicates
        split: flow.splits prod.splits if_splits)
qed

lemma processRange_noDuplicates:
  assumes "noDuplicates s"
  shows "processRange e channelId uid aft bef batch s = Inl s' \<Longrightarrow> noDuplicates s'"
    and "processRange e channelId uid aft bef batch s = Inr s' \<Longrightarrow> noDuplicates s'"
  using collectRange_noDuplicates[OF assms, of channelId uid aft bef batch]
  by (auto simp: processRange_def Let_def dest: verifyShortPage_noDuplicates split: prod.splits if_splits)

lemma discoverStep_noDuplicates:
  assumes "noDuplicates s"
  shows "discoverStep e channelId opts s = Inl s' \<Longrightarrow> noDuplicates s'"
    and "discoverStep e channelId opts s = Inr s' \<Longrightarrow> noDuplicates s'"
  using assms
  by (auto simp: discoverStep_def Let_def split: prod.splits option.splits step.splits if_splits
      dest!: handleEmpty_noDuplicates dest: processBatch_noDuplicates)

lemma rangeStep_noDuplicates:
  assumes "noDuplicates s"
  shows "rangeStep e channelId uid aft bef s = Inl s' \<Longrightarrow> noDuplicates s'"
    and "rangeStep e channelId uid aft bef s = Inr s' \<Longrightarrow> noDuplicates s'"
  using assms
  by (auto simp: rangeStep_def Let_def split: prod.splits option.splits step.splits if_splits
      dest!: handleEmpty_noDuplicates dest: processRange_noDuplicates)

lemma noDuplicates_initLocals: "noDuplicates (initLocals c w)"
  by (simp add: noDuplicates_def initLocals_def)

lemma discoverRangeMessages_distinct:
  assumes "discoverRangeMessages e channelId uid aft bef w = Some (msgs, w')"
  shows "distinct (map msg_id msgs)"
proof -
  from assms obtain r where
    run: "whileLoop (rangeStep e channelId uid aft bef) (initLocals (truthy aft \<and> \<not> truthy bef) w) = Some r"
    and r: "finish channelId r = (msgs, w')"
    by (auto simp: discoverRangeMessages_def)
  have "noDuplicates r"
    by (rule whileLoop_invariant[where I = noDuplicates and Q = noDuplicates, OF run])
      (auto simp: noDuplicates_initLocals dest: rangeStep_noDuplicates)
  with r show ?thesis by (auto simp: finish_def noDuplicates_def)
qed

lemma discoverMessages_distinct:
  assumes "discoverMessages e channelId opts w = Some (msgs, w')"
  shows "distinct (map msg_id msgs)"
proof (cases "shouldStop (reg w) channelId")
  case True
  with assms show ?thesis by (simp add: discoverMessages_def)
next
  case False
  show ?thesis
  proof (cases "truthy (afterId opts) \<or> truthy (beforeId opts)")
    case True
    with False assms show ?thesis
      by (auto simp: discoverMessages_def dest: discoverRangeMessages_distinct)
  next
    case plain: False
    with False assms obtain r where
      run: "whileLoop (discoverStep e channelId opts) (initLocals False w) = Some r"
      and r: "finish channelId r = (msgs, w')"
      by (auto simp: discoverMessages_def)
    have "noDuplicates r"
      by (rule whileLoop_invariant[where I = noDuplicates and Q = noDuplicates, OF run])
        (auto simp: noDuplicates_initLocals dest: discoverStep_noDuplicates)
    with r show ?thesis by (auto simp: finish_def noDuplicates_def)
  qed
qed

text \<open>
  Claim C3. Whatever the transport answers (overlapping or repeated pages, errors,
  empty pages) and whatever the other tasks do, a list returned by the pagination
  engine or by the range extractor has no two entries with the same id.
\<close>

theorem discovery_returns_distinct_ids:
  "(discoverMessages e channelId opts w = Some (msgs, w') \<longrightarrow> distinct (map msg_id msgs)) \<and>
   (discoverRangeMessages e' channelId' uid aft bef v = Some (msgs', v') \<longrightarrow>
      distinct (map msg_id msgs'))"
  by (blast intro: discoverMessages_distinct discoverRangeMessages_distinct)

text \<open>
  An instance. The pagination engine runs against a transport that answers every
  request with the same page, in which one message even occurs twice. The range
  extractor, with the boundary 0 after which to collect, runs against a transport
  whose second and later pages overlap the first one. Both walks return, and each
  message is listed once.
\<close>

theorem discovery_returns_distinct_ids_witness:
  "(\<exists>w'. discoverMessages
      (quietEnv (\<lambda>t ch before after.
         Resolved (Some [mkMessage ''2'' ''a'', mkMessage ''1'' ''b'', mkMessage ''2'' ''a''])))
      ''c'' plainOptions emptyWorld = Some ([mkMessage ''2'' ''a'', mkMessage ''1'' ''b''], w')) \<and>
   (\<exists>w'. discoverRangeMessages
      (quietEnv (\<lambda>t ch before after.
         Resolved (Some (if t = 0 then [mkMessage ''2'' ''a'', mkMessage ''1'' ''b'']
                         else [mkMessage ''1'' ''b'', mkMessage ''0'' ''a'']))))
      ''c'' None (Some ''0'') None emptyWorld = Some ([mkMessage ''2'' ''a'', mkMessage ''1'' ''b''], w')) \<and>
   distinct (map msg_id [mkMessage ''2'' ''a'', mkMessage ''1'' ''b''])"
proof -
  let ?e = "quietEnv (\<lambda>t ch before after.
         Resolved (Some [mkMessage ''2'' ''a'', mkMessage ''1'' ''b'', mkMessage ''2'' ''a'']))"
  let ?e' = "quietEnv (\<lambda>t ch before after.
         Resolved (Some (if t = 0 then [mkMessage ''2'' ''a'', mkMessage ''1'' ''b'']
                         else [mkMessage ''1'' ''b'', mkMessage ''0'' ''a''])))"
  let ?r = "[mkMessage ''2'' ''a'', mkMessage ''1'' ''b'']"
  have run: "\<exists>w'. discoverMessages ?e ''c'' plainOptions emptyWorld = Some (?r, w')"
    by (simp add: run_defs example_defs)
  have range: "\<exists>w'. discoverRangeMessages ?e' ''c'' None (Some ''0'') None emptyWorld = Some (?r, w')"
    by (simp add: run_defs example_defs)
  from run obtain w' where a: "discoverMessages ?e ''c'' plainOptions emptyWorld = Some (?r, w')"
    by blast
  from range obtain v' where
    b: "discoverRangeMessages ?e' ''c'' None (Some ''0'') None emptyWorld = Some (?r, v')"
    by blast
  from discovery_returns_distinct_ids[of ?e "''c''" plainOptions emptyWorld ?r w'
      ?e' "''c''" None "Some ''0''" None emptyWorld ?r v'] a b
  have "distinct (map msg_id ?r)" by blast
  with run range show ?thesis by blast
qed

section \<open>Dispatch to the range extractor\<close>

lemma scanDelete_idem: "scanDelete channelId (scanDelete channelId w) = scanDelete channelId w"
  by (simp add: scanDelete_def)

lemma discoverRangeMessages_stopped:
  "shouldStop (reg w) channelId \<Longrightarrow>
   discoverRangeMessages e channelId uid aft bef w = Some ([], scanDelete channelId w)"
  by (subst discoverRangeMessages_def, subst whileLoop.simps)
     (simp add: rangeStep_def initLocals_def finish_def scanDelete_idem)

text \<open>
  Claim C10. With an \<open>afterId\<close> or a \<open>beforeId\<close> set, \<open>discoverMessages\<close> is the
  range extractor applied to the author filter and the two boundaries alone: whatever
  \<open>limit\<close> and \<open>onProgress\<close> are given, the outcome (the list and every effect)
  is the one of \<open>discoverRangeMessages\<close>, which has neither parameter. So the
  limit caps nothing and the callback is never invoked.
\<close>

theorem boundary_modes_ignore_limit_and_progress:
  assumes "truthy (afterId opts) \<or> truthy (beforeId opts)"
  shows "discoverMessages e channelId (opts\<lparr>limit := l, onProgress := cb\<rparr>) w =
         discoverRangeMessages e channelId (userId opts) (afterId opts) (beforeId opts) w"
  using assms by (simp add: discoverMessages_def discoverRangeMessages_stopped)

text \<open>
  An instance: three messages, the boundary is the oldest one, the limit is 1 and the
  callback would send a bot message. Two messages are returned, and the only effect
  is the one page fetch.
\<close>

theorem boundary_modes_ignore_limit_and_progress_witness:
  "truthy (afterId (plainOptions\<lparr>afterId := Some ''1''\<rparr>)) \<and>
   discoverMessages
     (historyEnv [mkMessage ''3'' ''a'', mkMessage ''2'' ''b'', mkMessage ''1'' ''a''])
     ''c''
     (plainOptions\<lparr>afterId := Some ''1'', limit := Some 1,
        onProgress := Some (\<lambda>n w. w\<lparr>events := events w @ [Bot ''c'' (ScanningProgress n)]\<rparr>)\<rparr>)
     emptyWorld =
   Some ([mkMessage ''3'' ''a'', mkMessage ''2'' ''b''],
         emptyWorld\<lparr>clock := 1, events := [Get ''c'' None None]\<rparr>)"
proof -
  have t: "truthy (afterId (plainOptions\<lparr>afterId := Some ''1''\<rparr>))"
    by (simp add: truthy_def)
  have "discoverRangeMessages
     (historyEnv [mkMessage ''3'' ''a'', mkMessage ''2'' ''b'', mkMessage ''1'' ''a''])
     ''c'' None (Some ''1'') None emptyWorld =
   Some ([mkMessage ''3'' ''a'', mkMessage ''2'' ''b''],
         emptyWorld\<lparr>clock := 1, events := [Get ''c'' None None]\<rparr>)"
    by (simp add: run_defs example_defs)
  with t boundary_modes_ignore_limit_and_progress[where opts = "plainOptions\<lparr>afterId := Some ''1''\<rparr>"
      and e = "historyEnv [mkMessage ''3'' ''a'', mkMessage ''2'' ''b'', mkMessage ''1'' ''a'']"
      and channelId = "''c''" and l = "Some 1"
      and cb = "Some (\<lambda>n w. w\<lparr>events := events w @ [Bot ''c'' (ScanningProgress n)]\<rparr>)"
      and w = emptyWorld]
  show ?thesis by (simp add: plainOptions_def)
qed

section \<open>The cursor of the pagination engine\<close>

lemma collectBatch_lastMessageId [simp]:
  "lastMessageId (flowState (collectBatch channelId opts batch s)) = lastMessageId s"
  by (induction batch arbitrary: s) (simp_all add: Let_def)

lemma reportProgress_frame [simp]:
  "lastMessageId (reportProgress opts s) = lastMessageId s"
  "messages (reportProgress opts s) = messages s"
  "seenMessageIds (reportProgress opts s) = seenMessageIds s"
  "emptyBatchCount (reportProgress opts s) = emptyBatchCount s"
  by (simp_all add: reportProgress_def split: option.splits)

lemma verifyShortPage_frame [simp]:
  "lastMessageId (snd (verifyShortPage e channelId batch s)) = lastMessageId s"
  "messages (snd (verifyShortPage e channelId batch s)) = messages s"
  "seenMessageIds (snd (verifyShortPage e channelId batch s)) = seenMessageIds s"
  "emptyBatchCount (snd (verifyShortPage e channelId batch s)) = emptyBatchCount s"
  "collecting (snd (verifyShortPage e channelId batch s)) = collecting s"
  "foundBoundary (snd (verifyShortPage e channelId batch s)) = foundBoundary s"
  by (simp_all add: verifyShortPage_def split: prod.splits option.splits)

lemma verifyShortPage_frameD:
  assumes "verifyShortPage e channelId batch s = (batch', s')"
  shows "lastMessageId s' = lastMessageId s" "messages s' = messages s"
    "seenMessageIds s' = seenMessageIds s" "emptyBatchCount s' = emptyBatchCount s"
    "collecting s' = collecting s" "foundBoundary s' = foundBoundary s"
  using verifyShortPage_frame[of e channelId batch s] assms by simp_all








section \<open>The retry loop and the verification loop\<close>

lemma await_frame [simp]:
  "clock (await e w) = Suc (clock w)"
  "events (await e w) = events w"
  by (simp_all add: await_def)

lemma sleep_frame [simp]:
  "clock (sleep ms e w) = Suc (clock w)"
  "events (sleep ms e w) = events w @ [Sleep ms]"
  by (simp_all add: sleep_def)










section \<open>The deletion executor\<close>

lemma deletedIds_append [simp]: "deletedIds (xs @ ys) = deletedIds xs @ deletedIds ys"
  by (simp add: deletedIds_def map_filter_def)

lemma deletedIds_simps [simp]:
  "deletedIds [] = []"
  "deletedIds (Sleep n # evs) = deletedIds evs"
  "deletedIds (Get c b a # evs) = deletedIds evs"
  "deletedIds (Bot c bm # evs) = deletedIds evs"
  "deletedIds (Del c m # evs) = m # deletedIds evs"
  by (simp_all add: deletedIds_def map_filter_def)

lemma purgeLoop_counts:
  assumes "neverStopsPurge e p" "\<not> stop (purgeObjects (reg w) p)"
    and "purgeLoop e channelId p canDeleteOthers excludeIds msgs (d, f) w = ((d', f'), w')"
  shows "d' + f' = d + f + length (filter (eligible e canDeleteOthers excludeIds) msgs) \<and>
         deletedIds (events w') =
           deletedIds (events w) @ map msg_id (filter (eligible e canDeleteOthers excludeIds) msgs)"
  using assms(2,3)
proof (induction msgs arbitrary: d f w)
  case Nil
  then show ?case by simp
next
  case (Cons msg rest)
  show ?case
  proof (cases "eligible e canDeleteOthers excludeIds msg")
    case False
    with Cons.prems have "purgeLoop e channelId p canDeleteOthers excludeIds rest (d, f) w = ((d', f'), w')"
      by (auto simp: eligible_def split: if_splits)
    from Cons.IH[OF Cons.prems(1) this] False show ?thesis by simp
  next
    case True
    obtain ok w1 where del: "deleteMessage e channelId (msg_id msg) w = (ok, w1)" by force
    then have w1: "w1 = await e (w\<lparr>events := events w @ [Del channelId (msg_id msg)]\<rparr>)"
      by (simp add: deleteMessage_def)
    from assms(1) Cons.prems(1) have s1: "\<not> stop (purgeObjects (reg w1) p)"
      by (simp add: w1 await_def neverStopsPurge_def)
    have ev1: "events w1 = events w @ [Del channelId (msg_id msg)]" by (simp add: w1)
    show ?thesis
    proof (cases ok)
      case ok: True
      let ?w2 = "setDeleted p (d + 1) w1"
      let ?w3 = "if rest \<noteq> [] then sleep (deletionDelay e) e ?w2 else ?w2"
      from s1 have s2: "\<not> stop (purgeObjects (reg ?w2) p)" by (simp add: setDeleted_def)
      with assms(1) have s3: "\<not> stop (purgeObjects (reg ?w3) p)"
        by (simp add: sleep_def await_def neverStopsPurge_def)
      have ev3: "deletedIds (events ?w3) = deletedIds (events w) @ [msg_id msg]"
        by (simp add: ev1 setDeleted_def)
      from Cons.prems True del ok
      have "purgeLoop e channelId p canDeleteOthers excludeIds rest (d + 1, f) ?w3 = ((d', f'), w')"
        by (auto simp: eligible_def Let_def split: if_splits)
      from Cons.IH[OF s3 this] True ev3 show ?thesis by simp
    next
      case bad: False
      let ?w2 = "setFailed p (f + 1) w1"
      from s1 have s2: "\<not> stop (purgeObjects (reg ?w2) p)" by (simp add: setFailed_def)
      have ev2: "deletedIds (events ?w2) = deletedIds (events w) @ [msg_id msg]"
        by (simp add: ev1 setFailed_def)
      from Cons.prems True del bad
      have "purgeLoop e channelId p canDeleteOthers excludeIds rest (d, f + 1) ?w2 = ((d', f'), w')"
        by (auto simp: eligible_def split: if_splits)
      from Cons.IH[OF s2 this] True ev2 show ?thesis by simp
    qed
  qed
qed

text \<open>
  Claim C7. The executor runs on a list that holds a record \<open>x\<close> with id \<open>X\<close>,
  with \<open>excludeIds = {X}\<close>, an active purge whose \<open>stop\<close> flag is never set, and
  every other record eligible (another id, and the user's own or deletable). Then
  the ids handed to the delete call are exactly those of the other records, in
  order, \<open>X\<close> is not among them, and \<open>deleted + failed + 1\<close> is the length of the
  list.
\<close>

theorem executePurge_skips_excluded:
  assumes "activePurges (reg w) channelId = Some p"
    and "\<not> stop (purgeObjects (reg w) p)" and "neverStopsPurge e p"
    and "msg_id x = X"
    and "\<forall>m \<in> set (xs @ ys). msg_id m \<noteq> X \<and> (author_id m = Some (currentUserId e) \<or> canDeleteOthers)"
    and "executePurge e channelId (xs @ x # ys) canDeleteOthers (Some {X}) w = ((d, f), w')"
  shows "d + f + 1 = length (xs @ x # ys) \<and>
         deletedIds (events w') = deletedIds (events w) @ map msg_id (xs @ ys) \<and>
         X \<notin> set (map msg_id (xs @ ys))"
proof -
  from assms(1,6) have run:
    "purgeLoop e channelId p canDeleteOthers (Some {X}) (xs @ x # ys) (0, 0) w = ((d, f), w')"
    by (simp add: executePurge_def)
  have "\<not> eligible e canDeleteOthers (Some {X}) x"
    using assms(4) by (simp add: eligible_def excluded_def)
  moreover have "filter (eligible e canDeleteOthers (Some {X})) xs = xs"
    "filter (eligible e canDeleteOthers (Some {X})) ys = ys"
    using assms(5) by (auto simp: eligible_def excluded_def filter_id_conv)
  ultimately have el: "filter (eligible e canDeleteOthers (Some {X})) (xs @ x # ys) = xs @ ys"
    by simp
  from purgeLoop_counts[OF assms(3,2) run] have
    "d + f = 0 + 0 + length (xs @ ys)"
    "deletedIds (events w') = deletedIds (events w) @ map msg_id (xs @ ys)"
    unfolding el by blast+
  moreover from assms(5) have "X \<notin> set (map msg_id (xs @ ys))" by auto
  ultimately show ?thesis by simp
qed

lemmas purge_defs =
  executePurge_def deleteMessage_def setDeleted_def setFailed_def deletionDelay_def excluded_def
  await_def sleep_def Let_def

text \<open>
  An instance: four records, the third one (id 9, another author) excluded, the
  delete call failing for id 2. The executor deletes 3 and 1, fails on 2, never
  asks for 9, and \<open>2 + 1 + 1 = 4\<close>.
\<close>

theorem executePurge_skips_excluded_witness:
  "\<exists>w'. executePurge
      ((quietEnv (\<lambda>t ch before after. Resolved None))\<lparr>restDel := (\<lambda>t ch mid. mid \<noteq> ''2'')\<rparr>)
      ''c''
      ([mkMessage ''3'' ''me'', mkMessage ''2'' ''me''] @ mkMessage ''9'' ''you'' # [mkMessage ''1'' ''me''])
      False (Some {''9''})
      (emptyWorld\<lparr>reg := emptyRegistry\<lparr>activePurges := [''c'' \<mapsto> 0]\<rparr>\<rparr>) = ((2, 1), w') \<and>
     (2::nat) + 1 + 1 =
       length ([mkMessage ''3'' ''me'', mkMessage ''2'' ''me''] @ mkMessage ''9'' ''you'' # [mkMessage ''1'' ''me'']) \<and>
     deletedIds (events w') = [''3'', ''2'', ''1''] \<and>
     ''9'' \<notin> set (map msg_id ([mkMessage ''3'' ''me'', mkMessage ''2'' ''me''] @ [mkMessage ''1'' ''me'']))"
proof -
  let ?e = "(quietEnv (\<lambda>t ch before after. Resolved None))\<lparr>restDel := (\<lambda>t ch mid. mid \<noteq> ''2'')\<rparr>"
  let ?w = "emptyWorld\<lparr>reg := emptyRegistry\<lparr>activePurges := [''c'' \<mapsto> 0]\<rparr>\<rparr>"
  let ?xs = "[mkMessage ''3'' ''me'', mkMessage ''2'' ''me'']"
  let ?x = "mkMessage ''9'' ''you''"
  let ?ys = "[mkMessage ''1'' ''me'']"
  have "\<exists>w'. executePurge ?e ''c'' (?xs @ ?x # ?ys) False (Some {''9''}) ?w = ((2, 1), w')"
    by (simp add: purge_defs example_defs)
  then obtain w' where run: "executePurge ?e ''c'' (?xs @ ?x # ?ys) False (Some {''9''}) ?w = ((2, 1), w')"
    by blast
  have h: "activePurges (reg ?w) ''c'' = Some 0" "\<not> stop (purgeObjects (reg ?w) 0)"
    "neverStopsPurge ?e 0" "msg_id ?x = ''9''"
    "\<forall>m \<in> set (?xs @ ?ys). msg_id m \<noteq> ''9'' \<and> (author_id m = Some (currentUserId ?e) \<or> False)"
    by (simp_all add: example_defs neverStopsPurge_def)
  have "deletedIds (events ?w) = []" by (simp add: example_defs)
  with executePurge_skips_excluded[OF h run] run show ?thesis
    by (intro exI[of _ w']) (simp add: mkMessage_def)
qed

section \<open>The command handler\<close>

lemma execute_confirm:
  assumes "subcommandName opts = Some ''confirm''"
  shows "execute e channelId opts w =
     (case pendingConfirmations (reg w) channelId of
        None \<Rightarrow> (sendBotMessage channelId NoPendingConfirmation w, None)
      | Some confirmation \<Rightarrow>
          let w1 = w\<lparr>reg := (reg w)\<lparr>pendingConfirmations :=
                      (pendingConfirmations (reg w))(channelId := None)\<rparr>\<rparr>
          in
          if activePurges (reg w) channelId \<noteq> None
          then (sendBotMessage channelId AlreadyInProgress w1, None)
          else (sendBotMessage channelId (StartingPurge (pcCount confirmation)) (newPurge channelId w1),
                Some (ConfirmTask confirmation)))"
  using assms by (simp add: execute_def Let_def split: option.splits)

lemma execute_busy:
  assumes "subcommandName opts \<noteq> Some ''confirm''" "activePurges (reg w) channelId \<noteq> None"
  shows "execute e channelId opts w = (sendBotMessage channelId AlreadyInProgress w, None)"
  using assms by (simp add: execute_def Let_def)

text \<open>
  Claim C6. A confirm is run on a channel with a pending confirmation: it consumes
  the confirmation, and starts the deletion run when no purge is active. A second
  confirm, run in any later world in which nothing has stored a new confirmation
  for the channel, sends the message that nothing is pending, starts no task and
  leaves the registry as it is: no operation state is created.
\<close>

theorem confirm_twice_is_user_error:
  assumes "subcommandName opts = Some ''confirm''" "subcommandName opts' = Some ''confirm''"
    and "pendingConfirmations (reg w) channelId = Some confirmation"
    and "execute e channelId opts w = (w1, started)"
    and "pendingConfirmations (reg w2) channelId = pendingConfirmations (reg w1) channelId"
  shows "pendingConfirmations (reg w1) channelId = None \<and>
         (activePurges (reg w) channelId = None \<longrightarrow> started = Some (ConfirmTask confirmation)) \<and>
         execute e channelId opts' w2 = (sendBotMessage channelId NoPendingConfirmation w2, None) \<and>
         reg (fst (execute e channelId opts' w2)) = reg w2"
proof -
  from assms(1,3,4) have p1: "pendingConfirmations (reg w1) channelId = None"
    and t1: "activePurges (reg w) channelId = None \<longrightarrow> started = Some (ConfirmTask confirmation)"
    by (auto simp: execute_confirm Let_def sendBotMessage_def newPurge_def split: if_splits)
  from p1 assms(5) have "pendingConfirmations (reg w2) channelId = None" by simp
  with assms(2) have "execute e channelId opts' w2 = (sendBotMessage channelId NoPendingConfirmation w2, None)"
    by (simp add: execute_confirm)
  with p1 t1 show ?thesis by (simp add: sendBotMessage_def)
qed

lemmas handler_defs =
  execute_def subcommandName_def sendBotMessage_def newPurge_def Let_def
  purgingWorld_def pendingWorld_def purgingPendingWorld_def somePending_def

text \<open>
  An instance: the first confirm starts the run for the pending confirmation and
  creates the purge object; the second one, in the world the first one left, only
  sends the message.
\<close>

theorem confirm_twice_is_user_error_witness:
  "execute (historyEnv []) ''c'' [(''confirm'', [])] pendingWorld =
     (emptyWorld\<lparr>reg := emptyRegistry\<lparr>activePurges := [''c'' \<mapsto> 0], nextPurge := 1\<rparr>,
                  events := [Bot ''c'' (StartingPurge 2)]\<rparr>,
      Some (ConfirmTask somePending)) \<and>
   execute (historyEnv []) ''c'' [(''confirm'', [])]
     (emptyWorld\<lparr>reg := emptyRegistry\<lparr>activePurges := [''c'' \<mapsto> 0], nextPurge := 1\<rparr>,
                  events := [Bot ''c'' (StartingPurge 2)]\<rparr>) =
     (emptyWorld\<lparr>reg := emptyRegistry\<lparr>activePurges := [''c'' \<mapsto> 0], nextPurge := 1\<rparr>,
                  events := [Bot ''c'' (StartingPurge 2), Bot ''c'' NoPendingConfirmation]\<rparr>,
      None)"
proof -
  let ?w1 = "emptyWorld\<lparr>reg := emptyRegistry\<lparr>activePurges := [''c'' \<mapsto> 0], nextPurge := 1\<rparr>,
                  events := [Bot ''c'' (StartingPurge 2)]\<rparr>"
  have first: "execute (historyEnv []) ''c'' [(''confirm'', [])] pendingWorld =
     (?w1, Some (ConfirmTask somePending))"
    by (simp add: handler_defs example_defs fun_eq_iff)
  have h: "subcommandName [(''confirm'', [])] = Some ''confirm''"
    "pendingConfirmations (reg pendingWorld) ''c'' = Some somePending"
    by (simp_all add: handler_defs example_defs)
  from confirm_twice_is_user_error[OF h(1) h(1) h(2) first refl]
  have "execute (historyEnv []) ''c'' [(''confirm'', [])] ?w1 =
          (sendBotMessage ''c'' NoPendingConfirmation ?w1, None)"
    by blast
  with first show ?thesis by (simp add: sendBotMessage_def emptyWorld_def)
qed

text \<open>
  Claim C5, as the code has it. While a purge is registered for the channel: a
  subcommand other than confirm is answered with the message that an operation is
  in progress, starts nothing and leaves the world otherwise as it is. A confirm
  starts nothing either and leaves the purges and the scans as they are; without
  a pending confirmation it sends the message that nothing is pending, and with
  one it removes that confirmation and then sends the message that an operation is
  in progress.
\<close>

theorem busy_channel_rejects_requests:
  assumes "activePurges (reg w) channelId \<noteq> None"
  shows "(subcommandName opts \<noteq> Some ''confirm'' \<longrightarrow>
            execute e channelId opts w = (sendBotMessage channelId AlreadyInProgress w, None) \<and>
            reg (fst (execute e channelId opts w)) = reg w) \<and>
         (subcommandName opts = Some ''confirm'' \<longrightarrow>
            snd (execute e channelId opts w) = None \<and>
            activePurges (reg (fst (execute e channelId opts w))) = activePurges (reg w) \<and>
            purgeObjects (reg (fst (execute e channelId opts w))) = purgeObjects (reg w) \<and>
            activeScans (reg (fst (execute e channelId opts w))) = activeScans (reg w) \<and>
            pendingConfirmations (reg (fst (execute e channelId opts w))) =
              (pendingConfirmations (reg w))(channelId := None) \<and>
            events (fst (execute e channelId opts w)) =
              events w @ [Bot channelId (if pendingConfirmations (reg w) channelId = None
                                         then NoPendingConfirmation else AlreadyInProgress)])"
proof (intro conjI impI)
  assume n: "subcommandName opts \<noteq> Some ''confirm''"
  from execute_busy[OF n assms]
  show "execute e channelId opts w = (sendBotMessage channelId AlreadyInProgress w, None)" .
  then show "reg (fst (execute e channelId opts w)) = reg w" by (simp add: sendBotMessage_def)
next
  assume c: "subcommandName opts = Some ''confirm''"
  note x = execute_confirm[OF c, of e channelId w]
  show "snd (execute e channelId opts w) = None"
    using assms by (simp add: x Let_def split: option.splits)
  show "activePurges (reg (fst (execute e channelId opts w))) = activePurges (reg w)"
    using assms by (simp add: x Let_def sendBotMessage_def split: option.splits)
  show "purgeObjects (reg (fst (execute e channelId opts w))) = purgeObjects (reg w)"
    using assms by (simp add: x Let_def sendBotMessage_def split: option.splits)
  show "activeScans (reg (fst (execute e channelId opts w))) = activeScans (reg w)"
    using assms by (simp add: x Let_def sendBotMessage_def split: option.splits)
  show "pendingConfirmations (reg (fst (execute e channelId opts w))) =
          (pendingConfirmations (reg w))(channelId := None)"
    using assms by (auto simp: x Let_def sendBotMessage_def fun_eq_iff split: option.splits)
  show "events (fst (execute e channelId opts w)) =
          events w @ [Bot channelId (if pendingConfirmations (reg w) channelId = None
                                     then NoPendingConfirmation else AlreadyInProgress)]"
    using assms by (simp add: x Let_def sendBotMessage_def split: option.splits)
qed

text \<open>
  An instance: with a purge running in the channel, \<open>/vpurge self 5\<close> is answered
  with the message that an operation is in progress and changes nothing else, and
  a confirm removes the pending confirmation.
\<close>

theorem busy_channel_rejects_requests_witness:
  "execute (historyEnv []) ''c'' [(''self'', [(''count'', StringValue ''5'')])] purgingWorld =
     (purgingWorld\<lparr>events := [Bot ''c'' AlreadyInProgress]\<rparr>, None) \<and>
   snd (execute (historyEnv []) ''c'' [(''confirm'', [])] purgingPendingWorld) = None \<and>
   pendingConfirmations (reg (fst (execute (historyEnv []) ''c'' [(''confirm'', [])] purgingPendingWorld)))
     ''c'' = None \<and>
   events (fst (execute (historyEnv []) ''c'' [(''confirm'', [])] purgingPendingWorld)) =
     [Bot ''c'' AlreadyInProgress]"
proof -
  have a: "activePurges (reg purgingWorld) ''c'' \<noteq> None"
    "activePurges (reg purgingPendingWorld) ''c'' \<noteq> None"
    by (simp_all add: handler_defs example_defs)
  have n: "subcommandName [(''self'', [(''count'', StringValue ''5'')])] \<noteq> Some ''confirm''"
    "subcommandName [(''confirm'', [])] = Some ''confirm''"
    by (simp_all add: subcommandName_def)
  from busy_channel_rejects_requests[OF a(1), of "[(''self'', [(''count'', StringValue ''5'')])]" "historyEnv []"] n(1)
  have "execute (historyEnv []) ''c'' [(''self'', [(''count'', StringValue ''5'')])] purgingWorld =
     (sendBotMessage ''c'' AlreadyInProgress purgingWorld, None)" by blast
  moreover
  from busy_channel_rejects_requests[OF a(2), of "[(''confirm'', [])]" "historyEnv []"] n(2)
  have "snd (execute (historyEnv []) ''c'' [(''confirm'', [])] purgingPendingWorld) = None"
    "pendingConfirmations (reg (fst (execute (historyEnv []) ''c'' [(''confirm'', [])] purgingPendingWorld)))
       = (pendingConfirmations (reg purgingPendingWorld))(''c'' := None)"
    "events (fst (execute (historyEnv []) ''c'' [(''confirm'', [])] purgingPendingWorld)) =
       events purgingPendingWorld @
         [Bot ''c'' (if pendingConfirmations (reg purgingPendingWorld) ''c'' = None
                     then NoPendingConfirmation else AlreadyInProgress)]"
    by blast+
  ultimately show ?thesis
    by (simp add: sendBotMessage_def purgingWorld_def purgingPendingWorld_def emptyWorld_def)
qed

text \<open>
  The claim as it is worded fails for the confirm subcommand. With a purge running
  and a confirmation pending, the confirm is rejected but the pending confirmation
  is gone; with a purge running and nothing pending, the answer is the message
  that nothing is pending, not the one that an operation is in progress.
\<close>

theorem confirm_while_busy_counterexample:
  "activePurges (reg purgingPendingWorld) ''c'' \<noteq> None \<and>
   pendingConfirmations (reg purgingPendingWorld) ''c'' = Some somePending \<and>
   pendingConfirmations (reg (fst (execute (historyEnv []) ''c'' [(''confirm'', [])] purgingPendingWorld)))
     ''c'' = None \<and>
   activePurges (reg purgingWorld) ''c'' \<noteq> None \<and>
   execute (historyEnv []) ''c'' [(''confirm'', [])] purgingWorld =
     (purgingWorld\<lparr>events := [Bot ''c'' NoPendingConfirmation]\<rparr>, None)"
  by (simp add: handler_defs example_defs)

section \<open>Walking a channel history\<close>

lemma await_keeps_running:
  "neverCancels e channelId \<Longrightarrow> \<not> shouldStop (reg w) channelId \<Longrightarrow>
   \<not> shouldStop (reg (await e w)) channelId"
  by (simp add: await_def neverCancels_def)

lemma sleep_keeps_running:
  "neverCancels e channelId \<Longrightarrow> \<not> shouldStop (reg w) channelId \<Longrightarrow>
   \<not> shouldStop (reg (sleep ms e w)) channelId"
  by (simp add: sleep_def await_keeps_running)

lemma fetchMessageBatch_keeps_running:
  "neverCancels e channelId \<Longrightarrow> \<not> shouldStop (reg w) channelId \<Longrightarrow>
   \<not> shouldStop (reg (snd (fetchMessageBatch e channelId before after w))) channelId"
  by (simp add: fetchMessageBatch_def Let_def await_keeps_running split: response.splits)

lemma fetchMessageBatch_history:
  assumes "servesHistory e channelId h"
  shows "fst (fetchMessageBatch e channelId before after w) =
           Inr (historyPage h (if truthy before then before else None))"
  using assms by (simp add: fetchMessageBatch_def Let_def servesHistory_def)

lemma fetchWithRetry_history:
  assumes "servesHistory e channelId h" "neverCancels e channelId" "\<not> shouldStop (reg w) channelId"
  shows "\<exists>w'. fetchWithRetry e channelId lastId 0 w =
                 (Some (historyPage h (if truthy lastId then lastId else None)), w') \<and>
               \<not> shouldStop (reg w') channelId"
proof -
  obtain r w' where f: "fetchMessageBatch e channelId lastId None w = (r, w')" by force
  with fetchMessageBatch_history[OF assms(1), of lastId None w]
  have r: "r = Inr (historyPage h (if truthy lastId then lastId else None))" by simp
  from fetchMessageBatch_keeps_running[OF assms(2,3), of lastId None] f
  have "\<not> shouldStop (reg w') channelId" by simp
  with f r show ?thesis by (subst fetchWithRetry.simps) simp
qed



lemma dropWhile_nth_distinct:
  assumes "distinct (map f xs)" "k < length xs"
  shows "dropWhile (\<lambda>x. f x \<noteq> f (xs ! k)) xs = drop k xs"
  using assms
proof (induction xs arbitrary: k)
  case Nil
  then show ?case by simp
next
  case (Cons x xs)
  show ?case
  proof (cases k)
    case 0
    then show ?thesis by simp
  next
    case (Suc j)
    with Cons.prems have "f (xs ! j) \<in> f ` set xs" by simp
    with Cons.prems have "f x \<noteq> f (xs ! j)" by auto
    with Cons Suc show ?thesis by simp
  qed
qed

lemma olderThan_cursorAt:
  assumes "wellFormedHistory h" "k \<le> length h"
  shows "olderThan h (cursorAt h k) = drop k h" and "truthy (cursorAt h k) = (k \<noteq> 0)"
proof -
  show "olderThan h (cursorAt h k) = drop k h"
  proof (cases k)
    case 0
    then show ?thesis by (simp add: olderThan_def cursorAt_def)
  next
    case (Suc j)
    with assms have "dropWhile (\<lambda>m. msg_id m \<noteq> msg_id (h ! j)) h = drop j h"
      by (intro dropWhile_nth_distinct) (simp_all add: wellFormedHistory_def)
    with Suc show ?thesis by (simp add: olderThan_def cursorAt_def drop_Suc tl_drop)
  qed
  show "truthy (cursorAt h k) = (k \<noteq> 0)"
  proof (cases k)
    case 0
    then show ?thesis by (simp add: cursorAt_def truthy_def)
  next
    case (Suc j)
    with assms have "msg_id (h ! j) \<in> msg_id ` set h" by simp
    with assms(1) have "msg_id (h ! j) \<noteq> []" unfolding wellFormedHistory_def by metis
    with Suc show ?thesis by (simp add: cursorAt_def truthy_def)
  qed
qed

lemma historyPage_cursorAt:
  assumes "wellFormedHistory h" "k \<le> length h"
  shows "historyPage h (if truthy (cursorAt h k) then cursorAt h k else None) = take BATCH_SIZE (drop k h)"
proof (cases "k = 0")
  case True
  then show ?thesis by (simp add: historyPage_def olderThan_def cursorAt_def truthy_def)
next
  case False
  with olderThan_cursorAt[OF assms] show ?thesis by (simp add: historyPage_def)
qed

text \<open>The next page of a walk that has consumed \<open>k\<close> messages.\<close>

lemma page_facts:
  assumes "wellFormedHistory h" "k \<le> length h" "page = take BATCH_SIZE (drop k h)"
  shows "distinct (map msg_id page)"
    and "msg_id ` set page \<inter> msg_id ` set (take k h) = {}"
    and "take k h @ page = take (k + length page) h"
    and "k + length page \<le> length h"
    and "length page < BATCH_SIZE \<Longrightarrow> k + length page = length h"
    and "page \<noteq> [] \<Longrightarrow> cursorAt h (k + length page) = Some (msg_id (last page))"
    and "page \<noteq> [] \<Longrightarrow> cursorAt h (k + length page) \<noteq> cursorAt h k"
proof -
  from assms(1) have d: "distinct (map msg_id h)" by (simp add: wellFormedHistory_def)
  have h: "h = take k h @ drop k h" by simp
  have dd: "distinct (map msg_id (take k h) @ map msg_id (drop k h))"
    using d by (metis h map_append)
  then have disj: "msg_id ` set (take k h) \<inter> msg_id ` set (drop k h) = {}"
    and d2: "distinct (map msg_id (drop k h))" by auto
  show "distinct (map msg_id page)"
    unfolding assms(3) using d2 by (metis distinct_take take_map)
  show "msg_id ` set page \<inter> msg_id ` set (take k h) = {}"
    unfolding assms(3) using disj set_take_subset[of BATCH_SIZE "drop k h"] by blast
  show t: "take k h @ page = take (k + length page) h"
    unfolding assms(3) by (simp add: take_add min_def)
  show le: "k + length page \<le> length h"
    unfolding assms(3) using assms(2) by simp
  show "length page < BATCH_SIZE \<Longrightarrow> k + length page = length h"
    unfolding assms(3) using assms(2) by (simp add: min_def split: if_splits)
  {
    assume ne: "page \<noteq> []"
    then have pos: "0 < length page" by simp
    have "(take k h @ page) ! (k + (length page - 1)) = page ! (length page - 1)"
      using assms(2) by (simp add: nth_append)
    moreover from ne have "k + (length page - 1) = k + length page - 1" by (cases page) simp_all
    ultimately have "last page = (take k h @ page) ! (k + length page - 1)"
      using ne by (simp add: last_conv_nth)
    also have "\<dots> = h ! (k + length page - 1)"
      unfolding t using pos by simp
    finally have l: "last page = h ! (k + length page - 1)" .
    with pos show c: "cursorAt h (k + length page) = Some (msg_id (last page))"
      by (simp add: cursorAt_def)
    show "cursorAt h (k + length page) \<noteq> cursorAt h k"
    proof (cases "k = 0")
      case True
      with c show ?thesis by (simp add: cursorAt_def)
    next
      case False
      with pos le have "k - 1 < length h" "k + length page - 1 < length h" "k - 1 \<noteq> k + length page - 1"
        by (simp_all del: length_greater_0_conv)
      with d have "msg_id (h ! (k - 1)) \<noteq> msg_id (h ! (k + length page - 1))"
        by (metis length_map nth_eq_iff_index_eq nth_map)
      with False pos show ?thesis by (simp add: cursorAt_def)
    qed
  }
qed

section \<open>The bounded walk\<close>

lemma limitReached_nat:
  "limit opts = Some (int N) \<Longrightarrow> 0 < N \<Longrightarrow> limitReached opts ms = (N \<le> length ms)"
  by (simp add: limitReached_def)

lemma collectBatch_frame:
  "collectBatch channelId opts batch s = Completed s' \<or> collectBatch channelId opts batch s = Broke s'
   \<Longrightarrow> world s' = world s \<and> emptyBatchCount s' = emptyBatchCount s \<and> lastMessageId s' = lastMessageId s"
proof (induction batch arbitrary: s)
  case Nil
  then show ?case by auto
next
  case (Cons msg rest)
  show ?case
  proof (cases "shouldStop (reg (world s)) channelId")
    case True
    with Cons.prems show ?thesis by simp
  next
    case False
    show ?thesis
    proof (cases "msg_id msg \<in> seenMessageIds s")
      case True
      with False Cons show ?thesis by simp
    next
      case fresh: False
      let ?s1 = "s\<lparr>seenMessageIds := insert (msg_id msg) (seenMessageIds s)\<rparr>"
      let ?s2 = "?s1\<lparr>messages := messages ?s1 @ [msg]\<rparr>"
      show ?thesis
      proof (cases "authorMatches (userId opts) msg")
        case no: False
        with False fresh Cons.prems
        have "collectBatch channelId opts rest ?s1 = Completed s' \<or> collectBatch channelId opts rest ?s1 = Broke s'"
          by (simp add: Let_def)
        from Cons.IH[OF this] show ?thesis by simp
      next
        case yes: True
        show ?thesis
        proof (cases "limitReached opts (messages ?s2)")
          case True
          with False fresh yes Cons.prems have "s' = ?s2" by (simp add: Let_def)
          then show ?thesis by simp
        next
          case nl: False
          with False fresh yes Cons.prems
          have "collectBatch channelId opts rest ?s2 = Completed s' \<or> collectBatch channelId opts rest ?s2 = Broke s'"
            by (simp add: Let_def)
          from Cons.IH[OF this] show ?thesis by simp
        qed
      qed
    qed
  qed
qed

lemma collectBatch_fresh:
  assumes "limit opts = Some (int N)" "0 < N"
  shows "\<not> shouldStop (reg (world s)) channelId \<Longrightarrow> distinct (map msg_id batch) \<Longrightarrow>
         msg_id ` set batch \<inter> seenMessageIds s = {} \<Longrightarrow> length (messages s) < N \<Longrightarrow>
         (N \<le> length (messages s @ filter (authorMatches (userId opts)) batch) \<longrightarrow>
            (\<exists>s'. collectBatch channelId opts batch s = Broke s' \<and>
                  messages s' = take N (messages s @ filter (authorMatches (userId opts)) batch))) \<and>
         (length (messages s @ filter (authorMatches (userId opts)) batch) < N \<longrightarrow>
            (\<exists>s'. collectBatch channelId opts batch s = Completed s' \<and>
                  messages s' = messages s @ filter (authorMatches (userId opts)) batch \<and>
                  seenMessageIds s' = seenMessageIds s \<union> msg_id ` set batch))"
proof (induction batch arbitrary: s)
  case Nil
  then show ?case by simp
next
  case (Cons msg rest)
  let ?P = "authorMatches (userId opts)"
  let ?s1 = "s\<lparr>seenMessageIds := insert (msg_id msg) (seenMessageIds s)\<rparr>"
  let ?s2 = "?s1\<lparr>messages := messages ?s1 @ [msg]\<rparr>"
  from Cons.prems have fresh: "msg_id msg \<notin> seenMessageIds s" by auto
  from Cons.prems have d: "distinct (map msg_id rest)"
    and disj: "msg_id ` set rest \<inter> seenMessageIds ?s1 = {}" by auto
  show ?case
  proof (cases "?P msg")
    case no: False
    from Cons.prems fresh no
    have u: "collectBatch channelId opts (msg # rest) s = collectBatch channelId opts rest ?s1"
      by (simp add: Let_def)
    from Cons.IH[of ?s1] Cons.prems d disj no show ?thesis unfolding u by auto
  next
    case yes: True
    show ?thesis
    proof (cases "N \<le> length (messages ?s2)")
      case True
      with Cons.prems fresh yes assms
      have u: "collectBatch channelId opts (msg # rest) s = Broke ?s2"
        by (simp add: Let_def limitReached_nat)
      from True Cons.prems(4) have "N = length (messages s) + 1" by simp
      then have "take N (messages s @ msg # filter ?P rest) = messages s @ [msg]" by simp
      with u yes True show ?thesis by simp
    next
      case False
      with Cons.prems fresh yes assms
      have u: "collectBatch channelId opts (msg # rest) s = collectBatch channelId opts rest ?s2"
        by (simp add: Let_def limitReached_nat)
      from False have "length (messages ?s2) < N" by simp
      from Cons.IH[of ?s2, OF _ d _ this] Cons.prems(1) disj yes show ?thesis unfolding u by auto
    qed
  qed
qed



lemma verifyShortPage_full:
  "\<not> length batch < BATCH_SIZE \<Longrightarrow> verifyShortPage e channelId batch s = (batch, s)"
  by (simp add: verifyShortPage_def)

lemma processBatch_messages:
  assumes "processBatch e channelId opts batch s = Inl s' \<or> processBatch e channelId opts batch s = Inr s'"
  shows "messages s' = messages (flowState (collectBatch channelId opts batch
                                    (s\<lparr>lastSuccessfulBatchSize := length batch\<rparr>)))"
proof -
  let ?fl = "collectBatch channelId opts batch (s\<lparr>lastSuccessfulBatchSize := length batch\<rparr>)"
  from assms show ?thesis
    by (cases ?fl)
       (auto simp: processBatch_def Let_def split: if_splits prod.splits dest!: verifyShortPage_frameD(2))
qed

lemma processBatch_limit_reached:
  assumes "limitReached opts (messages (flowState (collectBatch channelId opts batch
                                    (s\<lparr>lastSuccessfulBatchSize := length batch\<rparr>))))"
    and "batch \<noteq> []"
  shows "\<exists>s'. processBatch e channelId opts batch s = Inl s'"
proof -
  let ?fl = "collectBatch channelId opts batch (s\<lparr>lastSuccessfulBatchSize := length batch\<rparr>)"
  show ?thesis
  proof (cases "processBatch e channelId opts batch s")
    case (Inl a)
    then show ?thesis by simp
  next
    case (Inr s')
    from processBatch_messages[of e channelId opts batch s s'] Inr assms(1)
    have lr: "limitReached opts (messages s')" by simp
    from Inr have "\<not> limitReached opts (messages s')"
      by (cases ?fl)
         (auto simp: processBatch_def Let_def split: if_splits prod.splits)
    with lr show ?thesis by simp
  qed
qed

lemma filter_prefix_take:
  assumes "N \<le> length (filter P (take j h))"
  shows "take N (filter P (take j h)) = take N (filter P h)"
proof -
  have "filter P h = filter P (take j h) @ filter P (drop j h)"
    by (metis append_take_drop_id filter_append)
  with assms show ?thesis by simp
qed

lemma walked_card:
  assumes "wellFormedHistory h" "walked h channelId k s"
  shows "card (seenMessageIds s) = k"
proof -
  from assms have "distinct (map msg_id (take k h))"
    by (metis distinct_take take_map wellFormedHistory_def)
  then have "card (set (map msg_id (take k h))) = length (map msg_id (take k h))"
    by (rule distinct_card)
  with assms(2) show ?thesis by (simp add: walked_def)
qed

lemma reportProgress_keeps_running:
  assumes "quietProgress opts channelId" "\<not> shouldStop (reg (world s)) channelId"
  shows "\<not> shouldStop (reg (world (reportProgress opts s))) channelId"
  using assms by (auto simp: reportProgress_def quietProgress_def split: option.splits)

lemma bounded_step:
  assumes P_def: "P = authorMatches (userId opts)"
    and env: "servesHistory e channelId h" "neverCancels e channelId" "wellFormedHistory h"
      "quietProgress opts channelId"
    and lim: "limit opts = Some (int N)" "0 < N" "N \<le> length (filter P h)"
    and inv: "walked h channelId k s" "messages s = filter P (take k h)" "length (messages s) < N"
  shows "case discoverStep e channelId opts s of
           Inl r \<Rightarrow> messages r = take N (filter P h)
         | Inr s' \<Rightarrow> (\<exists>k'. k < k' \<and> walked h channelId k' s' \<and>
                          messages s' = filter P (take k' h) \<and> length (messages s') < N)"
proof -
  from inv(1) have k: "k \<le> length h" and seen: "seenMessageIds s = msg_id ` set (take k h)"
    and cur: "lastMessageId s = cursorAt h k" and eb: "emptyBatchCount s = 0"
    and run: "\<not> shouldStop (reg (world s)) channelId"
    by (simp_all add: walked_def)
  define page where "page = take BATCH_SIZE (drop k h)"
  note pf = page_facts[OF env(3) k page_def]
  from fetchWithRetry_history[OF env(1,2) run, of "lastMessageId s"]
  obtain w1 where f: "fetchWithRetry e channelId (lastMessageId s) 0 (world s) = (Some page, w1)"
    and run1: "\<not> shouldStop (reg w1) channelId"
    unfolding cur page_def historyPage_cursorAt[OF env(3) k] by blast
  have split: "filter P h = filter P (take k h) @ filter P (drop k h)"
    by (metis append_take_drop_id filter_append)
  with lim(3) inv(2,3) have "filter P (drop k h) \<noteq> []" by auto
  then have "drop k h \<noteq> []" by auto
  then have ne: "page \<noteq> []" by (simp add: page_def BATCH_SIZE_def)
  from inv(3) lim have nl: "\<not> limitReached opts (messages s)" by (simp add: limitReached_nat)
  define s1 where "s1 = s\<lparr>world := w1, consecutiveErrors := 0, emptyBatchCount := 0\<rparr>"
  have step: "discoverStep e channelId opts s = processBatch e channelId opts page s1"
    using run nl f ne by (simp add: discoverStep_def handleEmpty_def s1_def)
  define s2 where "s2 = s1\<lparr>lastSuccessfulBatchSize := length page\<rparr>"
  have s2: "\<not> shouldStop (reg (world s2)) channelId" "msg_id ` set page \<inter> seenMessageIds s2 = {}"
    "length (messages s2) < N" "messages s2 = filter P (take k h)"
    using run1 pf(2) seen inv(2,3) by (simp_all add: s2_def s1_def)
  let ?ms = "messages s2 @ filter P page"
  have ms: "?ms = filter P (take (k + length page) h)"
    using pf(3) s2(4) by (metis filter_append)
  note cb = collectBatch_fresh[OF lim(1,2) s2(1) pf(1) s2(2,3), folded P_def]
  show ?thesis
  proof (cases "N \<le> length ?ms")
    case True
    with cb obtain s3 where c: "collectBatch channelId opts page s2 = Broke s3"
      and m3: "messages s3 = take N ?ms" by blast
    from True m3 have "limitReached opts (messages s3)"
      using lim by (simp add: limitReached_nat)
    with processBatch_limit_reached[of opts channelId page s1 e] c ne
    obtain r where r: "processBatch e channelId opts page s1 = Inl r"
      by (auto simp: s2_def)
    from processBatch_messages[of e channelId opts page s1 r] r c
    have "messages r = messages s3" by (simp add: s2_def)
    also have "\<dots> = take N (filter P h)"
      using m3 True filter_prefix_take[of N P "k + length page" h] unfolding ms by simp
    finally show ?thesis by (simp add: step r)
  next
    case False
    with cb obtain s3 where c: "collectBatch channelId opts page s2 = Completed s3"
      and m3: "messages s3 = ?ms" and seen3: "seenMessageIds s3 = seenMessageIds s2 \<union> msg_id ` set page"
      by auto
    from collectBatch_frame[of channelId opts page s2 s3] c
    have fr: "world s3 = world s2" "emptyBatchCount s3 = emptyBatchCount s2"
      "lastMessageId s3 = lastMessageId s2" by simp_all
    have full: "\<not> length page < BATCH_SIZE"
    proof
      assume "length page < BATCH_SIZE"
      with pf(5) have "k + length page = length h" by simp
      with ms have "?ms = filter P h" by simp
      with False lim(3) show False by simp
    qed
    define s4 where "s4 = reportProgress opts s3"
    have run4: "\<not> shouldStop (reg (world s4)) channelId"
      unfolding s4_def using s2(1) fr(1) by (intro reportProgress_keeps_running[OF env(4)]) simp
    have l4: "lastMessageId s4 = cursorAt h k" "messages s4 = ?ms" "emptyBatchCount s4 = 0"
      "seenMessageIds s4 = msg_id ` set (take (k + length page) h)"
      using fr cur m3 seen3 seen pf(3)[symmetric]
      by (simp_all add: s4_def s2_def s1_def image_Un Un_commute)
    define s5 where "s5 = s4\<lparr>lastMessageId := Some (msg_id (last page))\<rparr>"
    define s6 where "s6 = s5\<lparr>world := sleep DISCOVERY_DELAY e (world s5)\<rparr>"
    from pf(6,7)[OF ne] l4(1) have neq: "Some (msg_id (last page)) \<noteq> lastMessageId s4" by simp
    from False l4(2) lim have nl4: "\<not> limitReached opts (messages s4)"
      by (simp add: limitReached_nat)
    have m5: "messages s5 = messages s4" by (simp add: s5_def)
    have pb: "processBatch e channelId opts page s1 = Inr s6"
      using c ne neq nl4 m5 verifyShortPage_full[OF full, of e channelId s5]
      by (simp add: processBatch_def Let_def s2_def[symmetric] s4_def[symmetric] s5_def[symmetric]
          s6_def)
    have w6: "walked h channelId (k + length page) s6"
      using pf(4) l4 pf(6)[OF ne] run4 sleep_keeps_running[OF env(2), of "world s5"]
      by (simp add: walked_def s6_def s5_def)
    from ne have "k < k + length page" by simp
    moreover have "messages s6 = filter P (take (k + length page) h)"
      using l4(2) ms by (simp add: s6_def s5_def)
    moreover have "length (messages s6) < N"
      using False l4(2) by (simp add: s6_def s5_def)
    ultimately have "\<exists>k'. k < k' \<and> walked h channelId k' s6 \<and>
        messages s6 = filter P (take k' h) \<and> length (messages s6) < N"
      using w6 by blast
    then show ?thesis by (simp add: step pb)
  qed
qed

lemma walked_init: "\<not> shouldStop (reg w) channelId \<Longrightarrow> walked h channelId 0 (initLocals c w)"
  by (simp add: walked_def initLocals_def cursorAt_def)

lemma bounded_walk_total:
  assumes P_def: "P = authorMatches (userId opts)"
    and env: "servesHistory e channelId h" "neverCancels e channelId" "wellFormedHistory h"
      "quietProgress opts channelId"
    and lim: "limit opts = Some (int N)" "0 < N" "N \<le> length (filter P h)"
    and run: "\<not> shouldStop (reg w) channelId"
  shows "\<exists>r. whileLoop (discoverStep e channelId opts) (initLocals False w) = Some r \<and>
             messages r = take N (filter P h)"
proof -
  define I where "I s = (\<exists>k. walked h channelId k s \<and> messages s = filter P (take k h) \<and>
                              length (messages s) < N)" for s
  define m where "m s = length h - card (seenMessageIds s)" for s :: locals
  have init: "I (initLocals False w)"
    unfolding I_def using walked_init[OF run, of h False] lim(2)
    by (intro exI[of _ 0]) (simp add: initLocals_def)
  have step: "case discoverStep e channelId opts s of
                Inl r \<Rightarrow> messages r = take N (filter P h) | Inr s' \<Rightarrow> I s' \<and> m s' < m s"
    if "I s" for s
  proof -
    from that obtain k where k: "walked h channelId k s" "messages s = filter P (take k h)"
      "length (messages s) < N" unfolding I_def by blast
    note b = bounded_step[OF P_def env lim k]
    show ?thesis
    proof (cases "discoverStep e channelId opts s")
      case (Inl r)
      with b show ?thesis by simp
    next
      case (Inr s')
      with b obtain k' where k': "k < k'" "walked h channelId k' s'"
        "messages s' = filter P (take k' h)" "length (messages s') < N" by auto
      from walked_card[OF env(3) k(1)] walked_card[OF env(3) k'(2)] k'(1,2)
      have "m s' < m s" by (auto simp: m_def walked_def)
      with k' Inr show ?thesis by (auto simp: I_def)
    qed
  qed
  from whileLoop_total[where I = I and m = m and Q = "\<lambda>r. messages r = take N (filter P h)",
      OF init step]
  show ?thesis by blast
qed

lemma collectBatch_length_le:
  assumes "limit opts = Some (int N)" "0 < N"
  shows "length (messages s) < N \<Longrightarrow>
         length (messages (flowState (collectBatch channelId opts batch s))) \<le> N"
proof (induction batch arbitrary: s)
  case Nil
  then show ?case by simp
next
  case (Cons msg rest)
  let ?s1 = "s\<lparr>seenMessageIds := insert (msg_id msg) (seenMessageIds s)\<rparr>"
  let ?s2 = "?s1\<lparr>messages := messages ?s1 @ [msg]\<rparr>"
  have a: "length (messages (flowState (collectBatch channelId opts rest s))) \<le> N"
    and b: "length (messages (flowState (collectBatch channelId opts rest ?s1))) \<le> N"
    using Cons.IH[of s] Cons.IH[of ?s1] Cons.prems by simp_all
  have c: "length (messages (flowState (collectBatch channelId opts rest ?s2))) \<le> N"
    if "\<not> limitReached opts (messages ?s2)"
    using that Cons.IH[of ?s2] assms by (simp add: limitReached_nat)
  from Cons.prems a b c show ?case
    by (auto simp: Let_def)
qed

lemma handleEmpty_messages:
  "handleEmpty e channelId batch s = Leave s' \<Longrightarrow> messages s' = messages s"
  "handleEmpty e channelId batch s = Again s' \<Longrightarrow> messages s' = messages s"
  "handleEmpty e channelId batch s = Proceed b s' \<Longrightarrow> messages s' = messages s"
  by (auto simp: handleEmpty_def Let_def split: prod.splits option.splits if_splits)

lemma discoverStep_length_le:
  assumes "limit opts = Some (int N)" "0 < N" "length (messages s) \<le> N"
    and "discoverStep e channelId opts s = Inl s' \<or> discoverStep e channelId opts s = Inr s'"
  shows "length (messages s') \<le> N"
proof (cases "shouldStop (reg (world s)) channelId \<or> limitReached opts (messages s)")
  case True
  with assms show ?thesis by (auto simp: discoverStep_def split: if_splits)
next
  case False
  with assms(1,2) have lt: "length (messages s) < N" by (simp add: limitReached_nat)
  obtain r w1 where f: "fetchWithRetry e channelId (lastMessageId s) 0 (world s) = (r, w1)" by force
  show ?thesis
  proof (cases r)
    case None
    with False f assms(3,4) show ?thesis
      by (auto simp: discoverStep_def Let_def split: if_splits)
  next
    case (Some batch)
    let ?s1 = "s\<lparr>world := w1, consecutiveErrors := 0\<rparr>"
    show ?thesis
    proof (cases "handleEmpty e channelId batch ?s1")
      case (Leave t)
      with False f Some assms(3,4) handleEmpty_messages(1)[OF Leave] show ?thesis
        by (auto simp: discoverStep_def)
    next
      case (Again t)
      with False f Some assms(3,4) handleEmpty_messages(2)[OF Again] show ?thesis
        by (auto simp: discoverStep_def)
    next
      case (Proceed b t)
      with False f Some assms(4)
      have p: "processBatch e channelId opts b t = Inl s' \<or> processBatch e channelId opts b t = Inr s'"
        by (auto simp: discoverStep_def)
      from handleEmpty_messages(3)[OF Proceed] lt
      have "length (messages (t\<lparr>lastSuccessfulBatchSize := length b\<rparr>)) < N" by simp
      from collectBatch_length_le[OF assms(1,2) this, of channelId b] processBatch_messages[OF p]
      show ?thesis by simp
    qed
  qed
qed

lemma bounded_length:
  assumes "limit opts = Some (int N)" "0 < N"
    and "\<not> truthy (afterId opts)" "\<not> truthy (beforeId opts)"
    and "discoverMessages e channelId opts w = Some (msgs, w')"
  shows "length msgs \<le> N"
proof (cases "shouldStop (reg w) channelId")
  case True
  with assms show ?thesis by (simp add: discoverMessages_def)
next
  case False
  with assms obtain r where
    run: "whileLoop (discoverStep e channelId opts) (initLocals False w) = Some r"
    and r: "finish channelId r = (msgs, w')"
    by (auto simp: discoverMessages_def)
  have "length (messages r) \<le> N"
    by (rule whileLoop_invariant[where I = "\<lambda>s. length (messages s) \<le> N"
          and Q = "\<lambda>s. length (messages s) \<le> N", OF run])
       (auto simp: initLocals_def intro: discoverStep_length_le[OF assms(1,2)])
  with r show ?thesis by (auto simp: finish_def)
qed

text \<open>
  Claim C4. A discovery run with \<open>limit = N\<close>, \<open>N\<close> positive, and no boundary
  returns at most \<open>N\<close> records, whatever the transport does. When the transport
  serves a well-formed history, nothing requests a stop, and at least \<open>N\<close> records
  of the history pass the author filter, the run returns, and what it returns is
  exactly the \<open>N\<close> newest records that pass the filter.
\<close>

theorem bounded_discovery:
  assumes "limit opts = Some (int N)" "0 < N"
    and "\<not> truthy (afterId opts)" "\<not> truthy (beforeId opts)"
  shows "(discoverMessages e channelId opts w = Some (msgs, w') \<longrightarrow> length msgs \<le> N) \<and>
         (servesHistory e channelId h \<and> neverCancels e channelId \<and> quietProgress opts channelId \<and>
          wellFormedHistory h \<and> \<not> shouldStop (reg w) channelId \<and>
          N \<le> length (filter (authorMatches (userId opts)) h) \<longrightarrow>
            (\<exists>w''. discoverMessages e channelId opts w =
                     Some (take N (filter (authorMatches (userId opts)) h), w'')))"
proof (intro conjI impI)
  assume "discoverMessages e channelId opts w = Some (msgs, w')"
  with assms show "length msgs \<le> N" by (rule bounded_length)
next
  assume a: "servesHistory e channelId h \<and> neverCancels e channelId \<and> quietProgress opts channelId \<and>
          wellFormedHistory h \<and> \<not> shouldStop (reg w) channelId \<and>
          N \<le> length (filter (authorMatches (userId opts)) h)"
  then have "\<exists>r. whileLoop (discoverStep e channelId opts) (initLocals False w) = Some r \<and>
             messages r = take N (filter (authorMatches (userId opts)) h)"
    using assms(1,2) by (intro bounded_walk_total) simp_all
  with a assms(3,4) show "\<exists>w''. discoverMessages e channelId opts w =
                     Some (take N (filter (authorMatches (userId opts)) h), w'')"
    by (auto simp: discoverMessages_def finish_def)
qed

lemma historyEnv_quiet:
  "servesHistory (historyEnv h) channelId h" "neverCancels (historyEnv h) channelId"
  by (simp_all add: servesHistory_def neverCancels_def historyEnv_def quietEnv_def)

lemma emptyWorld_running: "\<not> shouldStop (reg emptyWorld) channelId"
  by (simp add: shouldStop_def emptyWorld_def emptyRegistry_def)

text \<open>
  An instance: three messages by the authors a, b and a, the author filter a and
  the limit 2. The run returns the newest and the oldest message.
\<close>

theorem bounded_discovery_witness:
  "\<exists>w'. discoverMessages
      (historyEnv [mkMessage ''3'' ''a'', mkMessage ''2'' ''b'', mkMessage ''1'' ''a''])
      ''c'' (plainOptions\<lparr>userId := Some ''a'', limit := Some 2\<rparr>) emptyWorld =
    Some ([mkMessage ''3'' ''a'', mkMessage ''1'' ''a''], w') \<and>
    length [mkMessage ''3'' ''a'', mkMessage ''1'' ''a''] \<le> 2"
proof -
  let ?h = "[mkMessage ''3'' ''a'', mkMessage ''2'' ''b'', mkMessage ''1'' ''a'']"
  let ?o = "plainOptions\<lparr>userId := Some ''a'', limit := Some 2\<rparr>"
  have o: "limit ?o = Some (int 2)" "(0::nat) < 2" "\<not> truthy (afterId ?o)" "\<not> truthy (beforeId ?o)"
    by (simp_all add: plainOptions_def truthy_def)
  have f: "filter (authorMatches (userId ?o)) ?h = [mkMessage ''3'' ''a'', mkMessage ''1'' ''a'']"
    by (simp add: authorMatches_def plainOptions_def mkMessage_def truthy_def)
  have h: "servesHistory (historyEnv ?h) ''c'' ?h \<and> neverCancels (historyEnv ?h) ''c'' \<and>
      quietProgress ?o ''c'' \<and> wellFormedHistory ?h \<and> \<not> shouldStop (reg emptyWorld) ''c'' \<and>
      2 \<le> length (filter (authorMatches (userId ?o)) ?h)"
    unfolding f
    by (simp add: historyEnv_quiet emptyWorld_running quietProgress_def plainOptions_def
        wellFormedHistory_def mkMessage_def)
  from bounded_discovery[OF o, of "historyEnv ?h" "''c''" emptyWorld _ _ ?h] h
  obtain w' where r: "discoverMessages (historyEnv ?h) ''c'' ?o emptyWorld =
      Some (take 2 (filter (authorMatches (userId ?o)) ?h), w')" by blast
  with bounded_discovery[OF o, of "historyEnv ?h" "''c''" emptyWorld
      "take 2 (filter (authorMatches (userId ?o)) ?h)" w']
  have "length (take 2 (filter (authorMatches (userId ?o)) ?h)) \<le> 2" by blast
  with r show ?thesis unfolding f by (intro exI[of _ w']) simp
qed

section \<open>The range walk over a history\<close>













section \<open>What the range walk collects, for any transport\<close>








section \<open>The after-only boundary\<close>








section \<open>The range with both boundaries\<close>


lemma olderThan_Nil [simp]: "olderThan [] c = []"
  by (simp add: olderThan_def split: option.splits)














end
